theory Spec2Isabelle
  imports Complex_Main
begin

section \<open>Clump handling (yt/analysis_modules/level_sets/clump_handling.py)\<close>

text \<open>
  The module builds a tree of \<^verbatim>\<open>Clump\<close> objects that point at each other: a clump
  holds its parent and the list of its children, and its \<^verbatim>\<open>clump_info\<close> is a mutable
  list that may or may not be shared with another clump. Object identity matters, so the
  objects live in an explicit store: a clump is the index of its record in \<open>clumps\<close>, an
  info list is the index of its contents in \<open>infos\<close>, and creating an object appends to
  the store, which makes every new object different from all older ones.

  The region objects, the contour finder, the info-item registry and the expression that
  \<^verbatim>\<open>_isValid\<close> evaluates are not part of the module; they are the fields of an
  environment record and every definition is parametric in them; each is a function, so
  the same question gets the same answer. Threshold values are exact numbers (\<open>real\<close>);
  the only arithmetic the module does on them is one multiplication and one comparison.
  Logging (\<^verbatim>\<open>print\<close>) is left out.

  The list of a clump's children is held in the clump's record as a value: the module
  appends to such a list only in \<^verbatim>\<open>find_children\<close>, right after assigning a new empty
  list, and otherwise replaces it as a whole.
\<close>

type_synonym addr = nat

type_synonym pyargs = "string list"

text \<open>
  The second result of \<^verbatim>\<open>identify_contours\<close>: a dictionary from a grid id to a list of
  pairs of a slice and an array of contour ids.
\<close>

type_synonym contour_slices = "(nat \<times> (nat \<times> int list) list) list"

datatype error = RecursionLimit | RegistryError string | TypeError | NameError string

record 'r clump =
  parent :: "addr option"
  data :: 'r
  field :: string
  min_val :: real
  max_val :: real
  cached_fields :: "string list option"
  clump_info :: addr
  function_expr :: string
  function_value :: "bool option"
  children :: "addr list option"

record ('r, 'i) heap =
  clumps :: "'r clump list"
  infos :: "'i list list"

text \<open>
  The collaborators. \<open>field_min\<close> and \<open>field_max\<close> are \<^verbatim>\<open>data[field].min()\<close> and
  \<^verbatim>\<open>.max()\<close>; \<open>cut_region r cid cids\<close> is
  \<^verbatim>\<open>r.cut_region(["obj['contours'] == cid"], {'contour_slices': cids})\<close>;
  \<open>ones_size r\<close> is \<^verbatim>\<open>r["ones"].size\<close>; \<open>registry_find\<close> is
  \<^verbatim>\<open>clump_info_registry.find\<close>, which may raise; \<open>eval_function\<close> is the \<^verbatim>\<open>eval\<close> of a
  clump's validity expression with \<^verbatim>\<open>self\<close> bound to the clump, whose value is
  \<^verbatim>\<open>None\<close> (\<open>None\<close>) or counts as true or false (\<open>Some True\<close>, \<open>Some False\<close>);
  \<open>info_value\<close> is the call \<^verbatim>\<open>item(self)\<close> of an info item, formatted with \<^verbatim>\<open>%s\<close>.
\<close>

record ('r, 'i) env =
  field_min :: "'r \<Rightarrow> string \<Rightarrow> real"
  field_max :: "'r \<Rightarrow> string \<Rightarrow> real"
  identify_contours :: "'r \<Rightarrow> string \<Rightarrow> real \<Rightarrow> real \<Rightarrow> nat \<times> contour_slices"
  cut_region :: "'r \<Rightarrow> int \<Rightarrow> contour_slices \<Rightarrow> 'r"
  ones_size :: "'r \<Rightarrow> nat"
  registry_find :: "string \<Rightarrow> pyargs \<Rightarrow> error + 'i"
  eval_function :: "string \<Rightarrow> ('r, 'i) heap \<Rightarrow> addr \<Rightarrow> bool option"
  info_value :: "'i \<Rightarrow> ('r, 'i) heap \<Rightarrow> addr \<Rightarrow> string"

subsection \<open>The store\<close>

definition upd_clump :: "addr \<Rightarrow> ('r clump \<Rightarrow> 'r clump) \<Rightarrow> ('r, 'i) heap \<Rightarrow> ('r, 'i) heap" where
  "upd_clump a f s = s\<lparr>clumps := (clumps s)[a := f (clumps s ! a)]\<rparr>"

definition list_append :: "addr \<Rightarrow> 'i \<Rightarrow> ('r, 'i) heap \<Rightarrow> ('r, 'i) heap" where
  "list_append l x s = s\<lparr>infos := (infos s)[l := infos s ! l @ [x]]\<rparr>"

text \<open>
  A reference is valid when it points into the store. Python has no dangling references,
  so every clump a program can hold is valid.
\<close>

definition valid_clump :: "('r, 'i) heap \<Rightarrow> addr \<Rightarrow> bool" where
  "valid_clump s a = (a < length (clumps s) \<and> clump_info (clumps s ! a) < length (infos s))"

text \<open>A \<^verbatim>\<open>for\<close> loop whose body may raise: the first error ends it.\<close>

fun for_each :: "('a \<Rightarrow> 's \<Rightarrow> error + 's) \<Rightarrow> 'a list \<Rightarrow> 's \<Rightarrow> error + 's" where
  "for_each body [] s = Inr s"
| "for_each body (x # rest) s =
     (case body x s of Inl e \<Rightarrow> Inl e | Inr s' \<Rightarrow> for_each body rest s')"

subsection \<open>Info items\<close>

text \<open>
  \<^verbatim>\<open>Clump.add_info_item\<close>. The first argument bounds the depth of the recursion, as the
  interpreter's recursion limit does; running out of it is the error \<open>RecursionLimit\<close>.
  The call on a child passes the name only, as the source does.
\<close>

primrec add_info_item ::
  "nat \<Rightarrow> ('r, 'i) env \<Rightarrow> addr \<Rightarrow> string \<Rightarrow> pyargs \<Rightarrow> ('r, 'i) heap \<Rightarrow> error + ('r, 'i) heap" where
  "add_info_item 0 env self info_item args s = Inl RecursionLimit"
| "add_info_item (Suc depth) env self info_item args s =
     (case registry_find env info_item args of
        Inl e \<Rightarrow> Inl e
      | Inr callback \<Rightarrow>
          (let s1 = list_append (clump_info (clumps s ! self)) callback s in
           case children (clumps s1 ! self) of
             None \<Rightarrow> Inr s1
           | Some cs \<Rightarrow> for_each (\<lambda>child. add_info_item depth env child info_item []) cs s1))"

definition default_clump_info :: "string list" where
  "default_clump_info =
     [''total_cells'', ''cell_mass'', ''mass_weighted_jeans_mass'',
      ''volume_weighted_jeans_mass'', ''max_grid_level'', ''min_number_density'',
      ''max_number_density'']"

text \<open>\<^verbatim>\<open>Clump.set_default_clump_info\<close>: a new empty list, then the seven default items.\<close>

definition set_default_clump_info ::
  "nat \<Rightarrow> ('r, 'i) env \<Rightarrow> addr \<Rightarrow> ('r, 'i) heap \<Rightarrow> error + ('r, 'i) heap" where
  "set_default_clump_info depth env self s =
     (let s0 = (upd_clump self (\<lambda>c. c\<lparr>clump_info := length (infos s)\<rparr>) s)\<lparr>infos := infos s @ [[]]\<rparr>
      in for_each (\<lambda>name. add_info_item depth env self name []) default_clump_info s0)"

text \<open>\<^verbatim>\<open>Clump.clear_clump_info\<close>: a new empty list for the clump and for every descendant.\<close>

primrec clear_clump_info :: "nat \<Rightarrow> addr \<Rightarrow> ('r, 'i) heap \<Rightarrow> error + ('r, 'i) heap" where
  "clear_clump_info 0 self s = Inl RecursionLimit"
| "clear_clump_info (Suc depth) self s =
     (let s1 = (upd_clump self (\<lambda>c. c\<lparr>clump_info := length (infos s)\<rparr>) s)\<lparr>infos := infos s @ [[]]\<rparr>
      in case children (clumps s1 ! self) of
           None \<Rightarrow> Inr s1
         | Some cs \<Rightarrow> for_each (\<lambda>child. clear_clump_info depth child) cs s1)"

subsection \<open>The constructor\<close>

definition default_function :: string where
  "default_function =
     ''self.data.quantities['' @ [CHR 0x22] @ ''IsBound'' @ [CHR 0x22] @
     ''](truncate=True,include_thermal_energy=True) > 1.0''"

text \<open>
  The object \<^verbatim>\<open>Clump.__init__\<close> fills in, apart from its \<^verbatim>\<open>clump_info\<close>. The attribute
  \<^verbatim>\<open>quantities\<close> is \<^verbatim>\<open>data.quantities\<close> and is read through \<open>data\<close>. The class
  attribute \<^verbatim>\<open>children = None\<close> is what a new object shows until \<^verbatim>\<open>find_children\<close> runs.
\<close>

definition new_clump_object ::
  "('r, 'i) env \<Rightarrow> 'r \<Rightarrow> addr option \<Rightarrow> string \<Rightarrow> string list option \<Rightarrow> string option \<Rightarrow> addr \<Rightarrow> 'r clump" where
  "new_clump_object env dat par fld cached fn ci =
     \<lparr>parent = par, data = dat, field = fld,
      min_val = field_min env dat fld, max_val = field_max env dat fld,
      cached_fields = cached, clump_info = ci,
      function_expr = (case fn of None \<Rightarrow> default_function | Some f \<Rightarrow> f),
      function_value = None, children = None\<rparr>"

text \<open>
  \<^verbatim>\<open>Clump(data, parent, field, cached_fields, function, clump_info)\<close> with a
  \<^verbatim>\<open>clump_info\<close> list given: the new clump gets \<^verbatim>\<open>copy.deepcopy(clump_info)\<close>, a new list
  object with the contents of the given one. The result is the new clump and the store.
\<close>

definition Clump_init ::
  "('r, 'i) env \<Rightarrow> 'r \<Rightarrow> addr option \<Rightarrow> string \<Rightarrow> string list option \<Rightarrow> string option \<Rightarrow> addr \<Rightarrow>
   ('r, 'i) heap \<Rightarrow> addr \<times> ('r, 'i) heap" where
  "Clump_init env dat par fld cached fn ci s =
     (length (clumps s),
      s\<lparr>clumps := clumps s @ [new_clump_object env dat par fld cached fn (length (infos s))],
        infos := infos s @ [infos s ! ci]\<rparr>)"

text \<open>The constructor with \<^verbatim>\<open>clump_info=None\<close>: the default items, through the registry.\<close>

definition Clump_init_default ::
  "nat \<Rightarrow> ('r, 'i) env \<Rightarrow> 'r \<Rightarrow> addr option \<Rightarrow> string \<Rightarrow> string list option \<Rightarrow> string option \<Rightarrow>
   ('r, 'i) heap \<Rightarrow> error + (addr \<times> ('r, 'i) heap)" where
  "Clump_init_default depth env dat par fld cached fn s =
     (let self = length (clumps s);
          s0 = s\<lparr>clumps := clumps s @ [new_clump_object env dat par fld cached fn (length (infos s))]\<rparr>
      in case set_default_clump_info depth env self s0 of
           Inl e \<Rightarrow> Inl e
         | Inr s1 \<Rightarrow> Inr (self, s1))"

subsection \<open>Finding children\<close>

text \<open>
  The contour ids \<^verbatim>\<open>find_children\<close> iterates over: the union of \<^verbatim>\<open>np.unique(ff)\<close> over
  every array of the dictionary, then \<^verbatim>\<open>sorted\<close>.
\<close>

definition unique_contours :: "contour_slices \<Rightarrow> int list" where
  "unique_contours cids = sort (remdups (concat (map snd (concat (map snd cids)))))"

text \<open>The loop of \<^verbatim>\<open>find_children\<close> over the sorted contour ids.\<close>

fun make_children ::
  "('r, 'i) env \<Rightarrow> addr \<Rightarrow> contour_slices \<Rightarrow> int list \<Rightarrow> ('r, 'i) heap \<Rightarrow> ('r, 'i) heap" where
  "make_children env self cids [] s = s"
| "make_children env self cids (cid # rest) s =
     (if cid = - 1 then make_children env self cids rest s
      else
        (let me = clumps s ! self;
             new_clump = cut_region env (data me) cid cids
         in if ones_size env new_clump = 0 then make_children env self cids rest s
            else
              (let (child, s1) = Clump_init env new_clump (Some self) (field me) (cached_fields me)
                                   (Some (function_expr me)) (clump_info me) s;
                   s2 = upd_clump self (\<lambda>c. c\<lparr>children := map_option (\<lambda>cs. cs @ [child]) (children c)\<rparr>) s1
               in make_children env self cids rest s2)))"

text \<open>
  \<^verbatim>\<open>Clump.find_children(min_val, max_val=None)\<close>. The old children are replaced by an
  empty list before anything else happens.
\<close>

definition find_children ::
  "('r, 'i) env \<Rightarrow> addr \<Rightarrow> real \<Rightarrow> real option \<Rightarrow> ('r, 'i) heap \<Rightarrow> ('r, 'i) heap" where
  "find_children env self minv maxv s =
     (let s0 = upd_clump self (\<lambda>c. c\<lparr>children := Some []\<rparr>) s;
          me = clumps s0 ! self;
          mx = (case maxv of None \<Rightarrow> max_val me | Some m \<Rightarrow> m);
          (nj, cids) = identify_contours env (data me) (field me) minv mx
      in make_children env self cids (unique_contours cids) s0)"

subsection \<open>Validity\<close>

text \<open>
  \<^verbatim>\<open>Clump._isValid\<close>: the expression is evaluated while \<^verbatim>\<open>function_value\<close> is
  \<^verbatim>\<open>None\<close>, its value is stored in \<^verbatim>\<open>function_value\<close>, and \<^verbatim>\<open>function_value\<close> is
  returned. An expression whose value is \<^verbatim>\<open>None\<close> leaves \<^verbatim>\<open>function_value\<close> at \<^verbatim>\<open>None\<close>.
  The result is the value returned and the store.
\<close>

definition isValid :: "('r, 'i) env \<Rightarrow> addr \<Rightarrow> ('r, 'i) heap \<Rightarrow> bool option \<times> ('r, 'i) heap" where
  "isValid env self s =
     (case function_value (clumps s ! self) of
        None \<Rightarrow>
          (let v = eval_function env (function_expr (clumps s ! self)) s self
           in (v, upd_clump self (\<lambda>c. c\<lparr>function_value := v\<rparr>) s))
      | Some v \<Rightarrow> (Some v, s))"

subsection \<open>The hierarchy builder\<close>

text \<open>\<^verbatim>\<open>(c.children is not None) and (len(c.children) > 0)\<close>\<close>

definition has_children :: "'r clump \<Rightarrow> bool" where
  "has_children c = (case children c of None \<Rightarrow> False | Some cs \<Rightarrow> 0 < length cs)"

text \<open>
  The loop of \<^verbatim>\<open>find_clumps\<close> over the children (lines 179 to 186): \<open>recurse\<close> is the
  recursive call on a child, \<open>these_children\<close> the list of the survivors so far. The
  test \<^verbatim>\<open>elif (child._isValid())\<close> succeeds when the value returned counts as true.
\<close>

fun investigate ::
  "(addr \<Rightarrow> ('r, 'i) heap \<Rightarrow> error + ('r, 'i) heap) \<Rightarrow> ('r, 'i) env \<Rightarrow> addr list \<Rightarrow> addr list \<Rightarrow>
   ('r, 'i) heap \<Rightarrow> error + (addr list \<times> ('r, 'i) heap)" where
  "investigate recurse env [] these_children s = Inr (these_children, s)"
| "investigate recurse env (child # rest) these_children s =
     (case recurse child s of
        Inl e \<Rightarrow> Inl e
      | Inr s1 \<Rightarrow>
          if has_children (clumps s1 ! child)
          then investigate recurse env rest (these_children @ [child]) s1
          else
            (let (v, s2) = isValid env child s1
             in if v = Some True then investigate recurse env rest (these_children @ [child]) s2
                else investigate recurse env rest these_children s2))"

text \<open>What \<^verbatim>\<open>find_clumps\<close> does with the survivors (lines 187 to 195).\<close>

definition link_children :: "addr \<Rightarrow> addr list \<Rightarrow> ('r, 'i) heap \<Rightarrow> ('r, 'i) heap" where
  "link_children clump these_children s =
     (if 1 < length these_children
      then upd_clump clump (\<lambda>c. c\<lparr>children := Some these_children\<rparr>) s
      else if length these_children = 1
      then upd_clump clump (\<lambda>c. c\<lparr>children := children (clumps s ! (these_children ! 0))\<rparr>) s
      else upd_clump clump (\<lambda>c. c\<lparr>children := Some []\<rparr>) s)"

text \<open>
  \<^verbatim>\<open>find_clumps(clump, min_val, max_val, d_clump)\<close>. The first argument bounds the depth
  of the recursion, as for \<open>add_info_item\<close>. \<^verbatim>\<open>len(clump.children)\<close> of an unset list
  would be a \<^verbatim>\<open>TypeError\<close>.
\<close>

primrec find_clumps ::
  "nat \<Rightarrow> ('r, 'i) env \<Rightarrow> addr \<Rightarrow> real \<Rightarrow> real \<Rightarrow> real \<Rightarrow> ('r, 'i) heap \<Rightarrow> error + ('r, 'i) heap" where
  "find_clumps 0 env clump minv maxv d_clump s = Inl RecursionLimit"
| "find_clumps (Suc depth) env clump minv maxv d_clump s =
     (if minv \<ge> maxv then Inr s
      else
        (let s1 = find_children env clump minv None s
         in case children (clumps s1 ! clump) of
              None \<Rightarrow> Inl TypeError
            | Some cs \<Rightarrow>
                if length cs = 1
                then find_clumps depth env clump (minv * d_clump) maxv d_clump s1
                else if 0 < length cs
                then
                  (case investigate (\<lambda>child. find_clumps depth env child (minv * d_clump) maxv d_clump)
                          env cs [] s1 of
                     Inl e \<Rightarrow> Inl e
                   | Inr (these_children, s2) \<Rightarrow> Inr (link_children clump these_children s2))
                else Inr s1))"

subsection \<open>Pickling\<close>

text \<open>\<^verbatim>\<open>Clump.__reduce__\<close>: the arguments handed to \<^verbatim>\<open>_reconstruct_clump\<close>.\<close>

definition reduce_clump ::
  "('r, 'i) heap \<Rightarrow> addr \<Rightarrow>
   addr option \<times> string \<times> real \<times> real \<times> bool option \<times> addr list option \<times> 'r \<times> addr \<times> string" where
  "reduce_clump s self =
     (let c = clumps s ! self
      in (parent c, field c, min_val c, max_val c, function_value c, children c, data c,
          clump_info c, function_expr c))"

text \<open>
  The \<^verbatim>\<open>parent\<close> argument of \<^verbatim>\<open>_reconstruct_clump\<close>: \<^verbatim>\<open>None\<close>, a clump, or the pair of
  a dataset and a clump that the function means to return for a root. What it means to
  return is the new clump, for a clump without a parent paired with the dataset
  \<^verbatim>\<open>data[0]\<close>.
\<close>

datatype 'pf parent_ref = ParentNone | ParentClump addr | ParentPair 'pf addr

datatype 'pf reconstructed = WithDataset 'pf addr | Plain addr

text \<open>
  \<^verbatim>\<open>_reconstruct_clump\<close>. Line 151 makes an object without attributes, and line 152
  calls \<^verbatim>\<open>iterable(parent)\<close>. The module binds the names \<^verbatim>\<open>copy\<close>, \<^verbatim>\<open>np\<close>,
  \<^verbatim>\<open>clump_info_registry\<close> and \<^verbatim>\<open>identify_contours\<close> by its imports and the names of its
  own class and functions; \<^verbatim>\<open>iterable\<close> is none of them and no built-in of Python
  either. The lookup of the name raises \<^verbatim>\<open>NameError\<close>, for every argument, and nothing
  after line 152 runs: no attribute is set, no child gets a parent, nothing is returned.
  The store is as it was, the object of line 151 being out of reach.
\<close>

definition reconstruct_clump ::
  "'pf parent_ref \<Rightarrow> string \<Rightarrow> real \<Rightarrow> real \<Rightarrow> bool option \<Rightarrow> addr list option \<Rightarrow> 'pf \<times> 'r \<Rightarrow> addr \<Rightarrow>
   string \<Rightarrow> ('r, 'i) heap \<Rightarrow> error + ('pf reconstructed \<times> ('r, 'i) heap)" where
  "reconstruct_clump par fld mi ma fv chs dat ci fn s = Inl (NameError ''iterable'')"

subsection \<open>Reports\<close>

text \<open>\<^verbatim>\<open>(c.children is None) or (len(c.children) == 0)\<close>\<close>

definition no_children :: "'r clump \<Rightarrow> bool" where
  "no_children c = (case children c of None \<Rightarrow> True | Some cs \<Rightarrow> length cs = 0)"

text \<open>\<^verbatim>\<open>"%d" % n\<close> for a level.\<close>

fun digits :: "nat \<Rightarrow> string" where
  "digits n = (if n < 10 then [char_of (48 + n)] else digits (n div 10) @ [char_of (48 + n mod 10)])"

definition tabs :: "nat \<Rightarrow> string" where
  "tabs level = replicate level (CHR 0x09)"

definition newline :: string where
  "newline = [CHR 0x0A]"

text \<open>\<^verbatim>\<open>Clump.write_info\<close>: the text written, one line for each info item.\<close>

definition write_info :: "('r, 'i) env \<Rightarrow> ('r, 'i) heap \<Rightarrow> addr \<Rightarrow> nat \<Rightarrow> string" where
  "write_info env s self level =
     concat (map (\<lambda>item. tabs level @ info_value env item s self @ newline)
               (infos s ! clump_info (clumps s ! self)))"

text \<open>
  \<^verbatim>\<open>write_clump_index\<close> and \<^verbatim>\<open>write_clumps\<close>: the result is the text written to the
  file. Opening and closing the file is not modelled.
\<close>

primrec write_clump_index ::
  "nat \<Rightarrow> ('r, 'i) env \<Rightarrow> ('r, 'i) heap \<Rightarrow> addr \<Rightarrow> nat \<Rightarrow> error + string" where
  "write_clump_index 0 env s clump level = Inl RecursionLimit"
| "write_clump_index (Suc depth) env s clump level =
     (let out = tabs level @ ''Clump at level '' @ digits level @ '':'' @ newline @
                write_info env s clump level @ newline
      in if has_children (clumps s ! clump)
         then for_each
                (\<lambda>child written.
                   case write_clump_index depth env s child (level + 1) of
                     Inl e \<Rightarrow> Inl e
                   | Inr t \<Rightarrow> Inr (written @ t))
                (case children (clumps s ! clump) of None \<Rightarrow> [] | Some cs \<Rightarrow> cs) out
         else Inr out)"

primrec write_clumps ::
  "nat \<Rightarrow> ('r, 'i) env \<Rightarrow> ('r, 'i) heap \<Rightarrow> addr \<Rightarrow> nat \<Rightarrow> error + string" where
  "write_clumps 0 env s clump level = Inl RecursionLimit"
| "write_clumps (Suc depth) env s clump level =
     (let out = (if no_children (clumps s ! clump)
                 then tabs level @ ''Clump:'' @ newline @ write_info env s clump level @ newline
                 else [])
      in if has_children (clumps s ! clump)
         then for_each
                (\<lambda>child written.
                   case write_clumps depth env s child 0 of
                     Inl e \<Rightarrow> Inl e
                   | Inr t \<Rightarrow> Inr (written @ t))
                (case children (clumps s ! clump) of None \<Rightarrow> [] | Some cs \<Rightarrow> cs) out
         else Inr out)"

section \<open>Notions used in the statements\<close>

text \<open>
  The contour dictionary \<^verbatim>\<open>find_children\<close> gets from \<^verbatim>\<open>identify_contours\<close> for a clump
  \<open>c\<close>, and the contour ids that lead to a child: every id of the dictionary but the
  sentinel \<open>- 1\<close> and the ids whose region has no cell, in ascending order.
\<close>

definition contours_of :: "('r, 'i) env \<Rightarrow> 'r clump \<Rightarrow> real \<Rightarrow> real option \<Rightarrow> contour_slices" where
  "contours_of env c minv maxv =
     snd (identify_contours env (data c) (field c) minv (case maxv of None \<Rightarrow> max_val c | Some m \<Rightarrow> m))"

definition keeps :: "('r, 'i) env \<Rightarrow> 'r \<Rightarrow> contour_slices \<Rightarrow> int \<Rightarrow> bool" where
  "keeps env r cids cid = (cid \<noteq> - 1 \<and> ones_size env (cut_region env r cid cids) \<noteq> 0)"

definition kept_contours :: "('r, 'i) env \<Rightarrow> 'r \<Rightarrow> contour_slices \<Rightarrow> int list" where
  "kept_contours env r cids = filter (keeps env r cids) (unique_contours cids)"

text \<open>
  The records of the children made for the contour ids \<open>ids\<close> of the clump \<open>self\<close> with
  record \<open>me\<close>, when the first free info list is \<open>ni\<close>.
\<close>

fun new_children ::
  "('r, 'i) env \<Rightarrow> 'r clump \<Rightarrow> addr \<Rightarrow> contour_slices \<Rightarrow> addr \<Rightarrow> int list \<Rightarrow> 'r clump list" where
  "new_children env me self cids ni [] = []"
| "new_children env me self cids ni (cid # rest) =
     new_clump_object env (cut_region env (data me) cid cids) (Some self) (field me)
       (cached_fields me) (Some (function_expr me)) ni
     # new_children env me self cids (Suc ni) rest"

text \<open>
  \<open>frame_at a s s'\<close>: from \<open>s\<close> to \<open>s'\<close> objects were added at most, and of the objects of
  \<open>s\<close> nothing changed but the \<open>children\<close> of \<open>a\<close>.
\<close>

definition frame_at :: "addr \<Rightarrow> ('r, 'i) heap \<Rightarrow> ('r, 'i) heap \<Rightarrow> bool" where
  "frame_at a s s' =
     (length (clumps s) \<le> length (clumps s') \<and>
      (\<forall>b < length (clumps s). b \<noteq> a \<longrightarrow> clumps s' ! b = clumps s ! b) \<and>
      (clumps s' ! a)\<lparr>children := None\<rparr> = (clumps s ! a)\<lparr>children := None\<rparr>)"

text \<open>
  A child counts as a survivor in a store when it has children there, or its cached
  validity is \<^verbatim>\<open>True\<close>.
\<close>

definition survivor :: "('r, 'i) heap \<Rightarrow> addr \<Rightarrow> bool" where
  "survivor s c = (has_children (clumps s ! c) \<or> function_value (clumps s ! c) = Some True)"

text \<open>The children of a clump as a list: none while they are unset.\<close>

definition child_list :: "'r clump \<Rightarrow> addr list" where
  "child_list c = (case children c of None \<Rightarrow> [] | Some cs \<Rightarrow> cs)"

text \<open>
  \<open>fresh_children a s s'\<close>: from \<open>s\<close> to \<open>s'\<close> the children of \<open>a\<close> stayed as they were, or
  they all are objects made after \<open>s\<close>.
\<close>

definition fresh_children :: "addr \<Rightarrow> ('r, 'i) heap \<Rightarrow> ('r, 'i) heap \<Rightarrow> bool" where
  "fresh_children a s s' =
     (children (clumps s' ! a) = children (clumps s ! a) \<or>
      (\<forall>x \<in> set (child_list (clumps s' ! a)). length (clumps s) \<le> x \<and> x < length (clumps s')))"

section \<open>An example environment\<close>

text \<open>
  A one-dimensional dataset to run the definitions on: a region is the list of the field
  values of its cells, a contour is a maximal run of neighbouring cells whose value lies
  between the two thresholds, numbered from 1, and the cells outside every contour carry
  \<open>- 1\<close>. An info item is its name with its arguments. The validity expression
  \<^verbatim>\<open>True\<close> holds for every clump, \<^verbatim>\<open>(self.data.size > 1) or None\<close> is \<^verbatim>\<open>True\<close> for a
  clump with more than one cell and \<^verbatim>\<open>None\<close> for any other, and every other expression
  stands for "the clump has more than one cell".
\<close>

fun label_runs :: "real \<Rightarrow> real \<Rightarrow> int \<Rightarrow> bool \<Rightarrow> real list \<Rightarrow> int list" where
  "label_runs lo hi cur inside [] = []"
| "label_runs lo hi cur inside (v # vs) =
     (if lo \<le> v \<and> v \<le> hi
      then (if inside then cur # label_runs lo hi cur True vs
            else (cur + 1) # label_runs lo hi (cur + 1) True vs)
      else (- 1) # label_runs lo hi cur False vs)"

definition line_env :: "(real list, string \<times> pyargs) env" where
  "line_env =
     \<lparr>field_min = (\<lambda>r f. case r of [] \<Rightarrow> 0 | v # vs \<Rightarrow> fold min vs v),
      field_max = (\<lambda>r f. case r of [] \<Rightarrow> 0 | v # vs \<Rightarrow> fold max vs v),
      identify_contours =
        (\<lambda>r f lo hi. let ff = label_runs lo hi 0 False r in (nat (fold max ff 0), [(0, [(0, ff)])])),
      cut_region =
        (\<lambda>r cid cids.
           map fst (filter (\<lambda>(v, l). l = cid) (zip r (concat (map snd (concat (map snd cids))))))),
      ones_size = length,
      registry_find = (\<lambda>name args. if name = [] then Inl (RegistryError name) else Inr (name, args)),
      eval_function =
        (\<lambda>expr s a.
           if expr = ''True'' then Some True
           else if expr = ''(self.data.size > 1) or None''
           then (if 1 < length (data (clumps s ! a)) then Some True else None)
           else Some (1 < length (data (clumps s ! a)))),
      info_value = (\<lambda>item s a. fst item @ concat (snd item))\<rparr>"

text \<open>A store with one root clump over the region \<open>r\<close>, with an empty info list.\<close>

definition line_root :: "real list \<Rightarrow> string \<Rightarrow> (real list, string \<times> pyargs) heap" where
  "line_root r fn =
     snd (Clump_init line_env r None ''density'' None (Some fn) 0 \<lparr>clumps = [], infos = [[]]\<rparr>)"

section \<open>The store after \<^verbatim>\<open>find_children\<close>\<close>

lemma clumps_upd_clump [simp]: "clumps (upd_clump a f s) = (clumps s)[a := f (clumps s ! a)]"
  by (simp add: upd_clump_def)

lemma infos_upd_clump [simp]: "infos (upd_clump a f s) = infos s"
  by (simp add: upd_clump_def)

lemma new_children_cong:
  "data me' = data me \<Longrightarrow> field me' = field me \<Longrightarrow> cached_fields me' = cached_fields me \<Longrightarrow>
   function_expr me' = function_expr me \<Longrightarrow>
   new_children env me' self cids ni ids = new_children env me self cids ni ids"
  by (induction ids arbitrary: ni) simp_all

lemma make_children_clumps:
  "a < length (clumps s) \<Longrightarrow>
   clumps (make_children env a cids ids s) =
     (clumps s)[a := (clumps s ! a)\<lparr>children :=
        map_option (\<lambda>cs. cs @ [length (clumps s) ..< length (clumps s) + length (filter (keeps env (data (clumps s ! a)) cids) ids)])
          (children (clumps s ! a))\<rparr>]
     @ new_children env (clumps s ! a) a cids (length (infos s)) (filter (keeps env (data (clumps s ! a)) cids) ids)
   \<and> length (infos (make_children env a cids ids s)) = length (infos s) + length (filter (keeps env (data (clumps s ! a)) cids) ids)"
proof (induction ids arbitrary: s)
  case Nil
  have "map_option (\<lambda>cs. cs @ []) (children (clumps s ! a)) = children (clumps s ! a)"
    by (cases "children (clumps s ! a)") simp_all
  then show ?case by simp
next
  case (Cons cid rest)
  show ?case
  proof (cases "keeps env (data (clumps s ! a)) cids cid")
    case False
    then show ?thesis using Cons by (auto simp: keeps_def Let_def)
  next
    case True
    define me where "me = clumps s ! a"
    define child where "child = new_clump_object env (cut_region env (data me) cid cids) (Some a) (field me)
       (cached_fields me) (Some (function_expr me)) (length (infos s))"
    define s2 where "s2 = upd_clump a (\<lambda>c. c\<lparr>children := map_option (\<lambda>cs. cs @ [length (clumps s)]) (children c)\<rparr>)
        (snd (Clump_init env (cut_region env (data me) cid cids) (Some a) (field me) (cached_fields me)
                                   (Some (function_expr me)) (clump_info me) s))"
    have step: "make_children env a cids (cid # rest) s = make_children env a cids rest s2"
      using True by (simp add: keeps_def Let_def s2_def me_def Clump_init_def)
    have c2: "clumps s2 = (clumps s)[a := me\<lparr>children := map_option (\<lambda>cs. cs @ [length (clumps s)]) (children me)\<rparr>] @ [child]"
      using Cons.prems by (simp add: s2_def Clump_init_def child_def me_def nth_append list_update_append)
    have i2: "length (infos s2) = Suc (length (infos s))"
      by (simp add: s2_def Clump_init_def)
    have a2: "a < length (clumps s2)" using Cons.prems c2 by simp
    have me2: "clumps s2 ! a = me\<lparr>children := map_option (\<lambda>cs. cs @ [length (clumps s)]) (children me)\<rparr>"
      using Cons.prems c2 by (simp add: nth_append)
    have l2: "length (clumps s2) = Suc (length (clumps s))" using c2 by simp
    define K where "K = filter (keeps env (data me) cids) rest"
    have d2: "data (clumps s2 ! a) = data me" by (simp add: me2)
    have K2: "filter (keeps env (data (clumps s2 ! a)) cids) rest = K"
      by (simp add: d2 K_def)
    have nc: "new_children env (clumps s2 ! a) a cids (length (infos s2)) K =
              new_children env me a cids (Suc (length (infos s))) K"
      unfolding i2 by (rule new_children_cong) (simp_all add: me2)
    have ch: "map_option (\<lambda>cs. cs @ [length (clumps s2)..<length (clumps s2) + length K]) (children (clumps s2 ! a))
              = map_option (\<lambda>cs. cs @ [length (clumps s)..<length (clumps s) + Suc (length K)]) (children me)"
      by (cases "children me") (simp_all add: me2 l2 upt_rec)
    have upd: "(clumps s2)[a := X] = (clumps s)[a := X] @ [child]" for X
      using Cons.prems by (simp add: c2 list_update_append)
    have rec2: "(clumps s2 ! a)\<lparr>children := Y\<rparr> = me\<lparr>children := Y\<rparr>" for Y
      by (simp add: me2)
    have filt: "filter (keeps env (data (clumps s ! a)) cids) (cid # rest) = cid # K"
      using True by (simp add: K_def me_def)
    from Cons.IH [OF a2]
    have IH1: "clumps (make_children env a cids rest s2) =
        (clumps s)[a := me\<lparr>children := map_option (\<lambda>cs. cs @ [length (clumps s)..<length (clumps s) + Suc (length K)]) (children me)\<rparr>]
        @ [child] @ new_children env me a cids (Suc (length (infos s))) K"
      and IH2: "length (infos (make_children env a cids rest s2)) = length (infos s2) + length K"
      unfolding K2 nc ch rec2 upd by simp_all
    show ?thesis
      unfolding step filt
      using IH1 IH2 by (simp add: me_def [symmetric] child_def [symmetric] i2)
  qed
qed

lemma length_new_children [simp]: "length (new_children env me self cids ni ids) = length ids"
  by (induction ids arbitrary: ni) simp_all

lemma nth_new_children:
  "j < length ids \<Longrightarrow>
   new_children env me self cids ni ids ! j =
     new_clump_object env (cut_region env (data me) (ids ! j) cids) (Some self) (field me)
       (cached_fields me) (Some (function_expr me)) (ni + j)"
proof (induction ids arbitrary: ni j)
  case Nil
  then show ?case by simp
next
  case (Cons cid rest)
  then show ?case by (cases j) simp_all
qed

lemma make_children_infos:
  "a < length (clumps s) \<Longrightarrow> clump_info (clumps s ! a) < length (infos s) \<Longrightarrow>
   infos (make_children env a cids ids s) =
     infos s @ replicate (length (filter (keeps env (data (clumps s ! a)) cids) ids))
                 (infos s ! clump_info (clumps s ! a))"
proof (induction ids arbitrary: s)
  case Nil
  then show ?case by simp
next
  case (Cons cid rest)
  show ?case
  proof (cases "keeps env (data (clumps s ! a)) cids cid")
    case False
    then show ?thesis using Cons by (auto simp: keeps_def Let_def)
  next
    case True
    define me where "me = clumps s ! a"
    define s2 where "s2 = upd_clump a (\<lambda>c. c\<lparr>children := map_option (\<lambda>cs. cs @ [length (clumps s)]) (children c)\<rparr>)
        (snd (Clump_init env (cut_region env (data me) cid cids) (Some a) (field me) (cached_fields me)
                                   (Some (function_expr me)) (clump_info me) s))"
    have step: "make_children env a cids (cid # rest) s = make_children env a cids rest s2"
      using True by (simp add: keeps_def Let_def s2_def me_def Clump_init_def)
    have i2: "infos s2 = infos s @ [infos s ! clump_info me]"
      by (simp add: s2_def Clump_init_def)
    have a2: "a < length (clumps s2)" using Cons.prems by (simp add: s2_def Clump_init_def)
    have me2: "clumps s2 ! a = me\<lparr>children := map_option (\<lambda>cs. cs @ [length (clumps s)]) (children me)\<rparr>"
      using Cons.prems by (simp add: s2_def Clump_init_def nth_append me_def)
    have ci2: "clump_info (clumps s2 ! a) < length (infos s2)"
      using Cons.prems by (simp add: me2 i2 me_def)
    have "infos (make_children env a cids rest s2) =
          infos s2 @ replicate (length (filter (keeps env (data me) cids) rest)) (infos s2 ! clump_info me)"
      using Cons.IH [OF a2 ci2] by (simp add: me2)
    moreover have "infos s2 ! clump_info me = infos s ! clump_info me"
      using Cons.prems by (simp add: i2 nth_append me_def)
    ultimately show ?thesis
      unfolding step using True by (simp add: i2 me_def replicate_append_same)
  qed
qed

lemma find_children_clumps:
  assumes "a < length (clumps s)"
  shows "clumps (find_children env a minv maxv s) =
     (clumps s)[a := (clumps s ! a)\<lparr>children :=
        Some [length (clumps s) ..<
              length (clumps s) + length (kept_contours env (data (clumps s ! a)) (contours_of env (clumps s ! a) minv maxv))]\<rparr>]
     @ new_children env (clumps s ! a) a (contours_of env (clumps s ! a) minv maxv) (length (infos s))
         (kept_contours env (data (clumps s ! a)) (contours_of env (clumps s ! a) minv maxv))"
proof -
  define s0 where "s0 = upd_clump a (\<lambda>c. c\<lparr>children := Some []\<rparr>) s"
  define cids where "cids = contours_of env (clumps s ! a) minv maxv"
  have a0: "a < length (clumps s0)" using assms by (simp add: s0_def)
  have me0: "clumps s0 ! a = (clumps s ! a)\<lparr>children := Some []\<rparr>"
    using assms by (simp add: s0_def)
  have fc: "find_children env a minv maxv s = make_children env a cids (unique_contours cids) s0"
    by (cases maxv)
      (simp_all add: find_children_def Let_def s0_def [symmetric] me0 cids_def contours_of_def case_prod_beta)
  have nc: "new_children env ((clumps s ! a)\<lparr>children := Some []\<rparr>) a cids ni K = new_children env (clumps s ! a) a cids ni K" for ni K
    by (rule new_children_cong) simp_all
  have c0: "(clumps s0)[a := X] = (clumps s)[a := X]" for X
    by (simp add: s0_def)
  have l0: "length (clumps s0) = length (clumps s)" "infos s0 = infos s"
    by (simp_all add: s0_def)
  have "clumps (make_children env a cids (unique_contours cids) s0) =
     (clumps s)[a := (clumps s ! a)\<lparr>children :=
        Some [length (clumps s) ..< length (clumps s) + length (kept_contours env (data (clumps s ! a)) cids)]\<rparr>]
     @ new_children env (clumps s ! a) a cids (length (infos s)) (kept_contours env (data (clumps s ! a)) cids)"
    using make_children_clumps [OF a0, of env cids "unique_contours cids", THEN conjunct1]
    unfolding me0 c0 l0 kept_contours_def by (simp add: nc)
  then show ?thesis
    unfolding fc cids_def [symmetric] .
qed

lemma find_children_infos:
  assumes "valid_clump s a"
  shows "infos (find_children env a minv maxv s) =
     infos s @ replicate (length (kept_contours env (data (clumps s ! a)) (contours_of env (clumps s ! a) minv maxv)))
                 (infos s ! clump_info (clumps s ! a))"
proof -
  define s0 where "s0 = upd_clump a (\<lambda>c. c\<lparr>children := Some []\<rparr>) s"
  define cids where "cids = contours_of env (clumps s ! a) minv maxv"
  have a0: "a < length (clumps s0)" using assms by (simp add: s0_def valid_clump_def)
  have me0: "clumps s0 ! a = (clumps s ! a)\<lparr>children := Some []\<rparr>"
    using assms by (simp add: s0_def valid_clump_def)
  have ci0: "clump_info (clumps s0 ! a) < length (infos s0)"
    using assms by (simp add: me0 valid_clump_def) (simp add: s0_def)
  have fc: "find_children env a minv maxv s = make_children env a cids (unique_contours cids) s0"
    by (cases maxv)
      (simp_all add: find_children_def Let_def s0_def [symmetric] me0 cids_def contours_of_def case_prod_beta)
  have l0: "infos s0 = infos s"
    by (simp add: s0_def)
  have "infos (make_children env a cids (unique_contours cids) s0) =
     infos s @ replicate (length (kept_contours env (data (clumps s ! a)) cids))
                 (infos s ! clump_info (clumps s ! a))"
    using make_children_infos [OF a0 ci0, of env cids "unique_contours cids"]
    unfolding me0 l0 kept_contours_def by simp
  then show ?thesis
    unfolding fc cids_def [symmetric] .
qed

lemma sorted_kept_contours: "sorted_wrt (<) (kept_contours env r cids)"
proof -
  have "sorted_wrt (<) (unique_contours cids)"
    by (simp add: unique_contours_def strict_sorted_iff)
  then show ?thesis
    unfolding kept_contours_def by (rule sorted_wrt_filter)
qed

lemma find_children_children:
  "a < length (clumps s) \<Longrightarrow>
   children (clumps (find_children env a minv maxv s) ! a) =
     Some [length (clumps s) ..<
           length (clumps s) + length (kept_contours env (data (clumps s ! a)) (contours_of env (clumps s ! a) minv maxv))]"
  by (simp add: find_children_clumps nth_append)

lemma children_found:
  assumes "a < length (clumps s)"
    and "children (clumps (find_children env a minv maxv s) ! a) = Some cs"
  shows "cs = [length (clumps s) ..<
               length (clumps s) + length (kept_contours env (data (clumps s ! a)) (contours_of env (clumps s ! a) minv maxv))]"
  using find_children_children [OF assms(1), of env minv maxv] assms(2) by simp

lemma map_nth_append_upt:
  "length pre = n \<Longrightarrow> map (\<lambda>i. f ((pre @ new) ! i)) [n ..< n + length new] = map f new"
  by (rule nth_equalityI) (simp_all add: nth_append)

lemma data_new_children:
  "map data (new_children env me self cids ni ids) = map (\<lambda>cid. cut_region env (data me) cid cids) ids"
  by (induction ids arbitrary: ni) (simp_all add: new_clump_object_def)

lemma new_children_fresh:
  "c \<in> set (new_children env me self cids ni ids) \<Longrightarrow>
   parent c = Some self \<and> children c = None \<and> function_value c = None \<and>
   (\<exists>cid \<in> set ids. data c = cut_region env (data me) cid cids)"
  by (induction ids arbitrary: ni) (auto simp: new_clump_object_def)

lemma new_children_content:
  "map (\<lambda>c. c\<lparr>clump_info := 0\<rparr>) (new_children env me self cids ni ids) =
   map (\<lambda>c. c\<lparr>clump_info := 0\<rparr>) (new_children env me self cids 0 ids)"
proof (induction ids arbitrary: ni)
  case Nil
  show ?case by simp
next
  case (Cons cid rest)
  have "map (\<lambda>c. c\<lparr>clump_info := 0\<rparr>) (new_children env me self cids (Suc ni) rest) =
        map (\<lambda>c. c\<lparr>clump_info := 0\<rparr>) (new_children env me self cids (Suc 0) rest)"
    using Cons [of "Suc ni"] Cons [of "Suc 0"] by simp
  then show ?case by (simp add: new_clump_object_def)
qed

lemma clump_info_new_children:
  "map clump_info (new_children env me self cids ni ids) = [ni ..< ni + length ids]"
proof (induction ids arbitrary: ni)
  case Nil
  show ?case by simp
next
  case (Cons cid rest)
  show ?case using Cons [of "Suc ni"] by (simp add: new_clump_object_def upt_rec)
qed

lemma set_unique_contours:
  "set (unique_contours cids) = {cid. \<exists>(g, sl_list) \<in> set cids. \<exists>(sl, ff) \<in> set sl_list. cid \<in> set ff}"
  unfolding unique_contours_def by (auto; force)

lemma contours_of_children_update [simp]:
  "contours_of env (c\<lparr>children := x\<rparr>) minv maxv = contours_of env c minv maxv"
  by (cases maxv) (simp_all add: contours_of_def)

lemma new_children_children_update [simp]:
  "new_children env (me\<lparr>children := x\<rparr>) self cids ni ids = new_children env me self cids ni ids"
  by (rule new_children_cong) simp_all

section \<open>The children \<^verbatim>\<open>find_children\<close> makes\<close>

text \<open>
  C3. After \<^verbatim>\<open>find_children(min_val, max_val)\<close> the clump's children are new clumps,
  one for each contour id of the extractor's dictionary that is not the sentinel \<open>- 1\<close>
  and whose region has at least one cell (the list \<open>kept\<close>), and no others; the k-th
  child's region is the cut for the k-th such id. The ids are strictly ascending, so the children are in
  ascending contour-id order with one child for each id, and every child's region is
  non-empty and its parent is the clump.
\<close>

theorem find_children_contours:
  fixes env :: "('r, 'i) env" and minv :: real and maxv :: "real option"
  assumes "a < length (clumps s)"
  defines "me \<equiv> clumps s ! a"
  defines "cids \<equiv> contours_of env me minv maxv"
  defines "kept \<equiv> kept_contours env (data me) cids"
  defines "s' \<equiv> find_children env a minv maxv s"
  defines "cs \<equiv> [length (clumps s) ..< length (clumps s) + length kept]"
  shows "children (clumps s' ! a) = Some cs \<and>
     length cs = length kept \<and>
     map (\<lambda>c. data (clumps s' ! c)) cs = map (\<lambda>cid. cut_region env (data me) cid cids) kept \<and>
     sorted_wrt (<) kept \<and>
     set kept = {cid. (\<exists>(g, sl_list) \<in> set cids. \<exists>(sl, ff) \<in> set sl_list. cid \<in> set ff) \<and>
                      cid \<noteq> - 1 \<and> ones_size env (cut_region env (data me) cid cids) \<noteq> 0} \<and>
     (\<forall>c \<in> set cs. ones_size env (data (clumps s' ! c)) \<noteq> 0 \<and> parent (clumps s' ! c) = Some a)"
proof -
  define new where "new = new_children env me a cids (length (infos s)) kept"
  define pre where "pre = (clumps s)[a := me\<lparr>children := Some cs\<rparr>]"
  have cl: "clumps s' = pre @ new"
    unfolding s'_def pre_def new_def cs_def kept_def cids_def me_def
    using assms(1) by (rule find_children_clumps)
  have lp: "length pre = length (clumps s)" by (simp add: pre_def)
  have ln: "length new = length kept" by (simp add: new_def)
  have ch: "children (clumps s' ! a) = Some cs"
    unfolding s'_def cs_def kept_def cids_def me_def using assms(1) by (rule find_children_children)
  have recs: "map (\<lambda>c. clumps s' ! c) cs = new"
    unfolding cl cs_def ln [symmetric] using map_nth_append_upt [OF lp, of "\<lambda>c. c" new] by simp
  have "map (\<lambda>c. data (clumps s' ! c)) cs = map data (map (\<lambda>c. clumps s' ! c) cs)"
    by simp
  also have "\<dots> = map (\<lambda>cid. cut_region env (data me) cid cids) kept"
    unfolding recs new_def by (rule data_new_children)
  finally have dat: "map (\<lambda>c. data (clumps s' ! c)) cs = map (\<lambda>cid. cut_region env (data me) cid cids) kept" .
  have kept_set: "set kept = {cid. (\<exists>(g, sl_list) \<in> set cids. \<exists>(sl, ff) \<in> set sl_list. cid \<in> set ff) \<and>
                      cid \<noteq> - 1 \<and> ones_size env (cut_region env (data me) cid cids) \<noteq> 0}"
    by (auto simp: kept_def kept_contours_def keeps_def set_unique_contours)
  have each: "ones_size env (data (clumps s' ! c)) \<noteq> 0 \<and> parent (clumps s' ! c) = Some a" if "c \<in> set cs" for c
  proof -
    have "clumps s' ! c \<in> set new" using that recs by (metis image_eqI set_map)
    from new_children_fresh [OF this [unfolded new_def]]
    obtain cid where "cid \<in> set kept" "data (clumps s' ! c) = cut_region env (data me) cid cids"
      and "parent (clumps s' ! c) = Some a" by auto
    then show ?thesis by (auto simp: kept_def kept_contours_def keeps_def)
  qed
  show ?thesis
    using ch dat kept_set each sorted_kept_contours [of env "data me" cids]
    by (simp add: kept_def [symmetric]) (simp add: cs_def)
qed


theorem find_children_contours_witness:
  "children (clumps (find_children line_env 0 1 None (line_root [5, 5, 0, 7, 0, 3, 3] ''valid'')) ! 0) = Some [1, 2, 3] \<and>
   map (\<lambda>c. data (clumps (find_children line_env 0 1 None (line_root [5, 5, 0, 7, 0, 3, 3] ''valid'')) ! c)) [1, 2, 3] =
     [[5, 5], [7], [3, 3]] \<and>
   unique_contours (contours_of line_env (clumps (line_root [5, 5, 0, 7, 0, 3, 3] ''valid'') ! 0) 1 None) = [- 1, 1, 2, 3]"
proof -
  define s where "s = line_root [5, 5, 0, 7, 0, 3, 3] ''valid''"
  have h: "0 < length (clumps s)"
    unfolding s_def by code_simp
  have l: "length (clumps s) = 1"
    unfolding s_def by code_simp
  have k: "kept_contours line_env (data (clumps s ! 0)) (contours_of line_env (clumps s ! 0) 1 None) = [1, 2, 3]"
    unfolding s_def by code_simp
  have c: "map (\<lambda>cid. cut_region line_env (data (clumps s ! 0)) cid (contours_of line_env (clumps s ! 0) 1 None)) [1, 2, 3] =
     [[5, 5], [7], [3, 3]]"
    unfolding s_def by code_simp
  have u: "unique_contours (contours_of line_env (clumps s ! 0) 1 None) = [- 1, 1, 2, 3]"
    unfolding s_def by code_simp
  have upt: "[1 ..< 1 + length [1, 2, 3 :: int]] = [1, 2, 3]"
    by code_simp
  from find_children_contours [OF h, of line_env 1 None, unfolded k l upt c] u
  show ?thesis unfolding s_def by blast
qed

text \<open>
  C7. Calling \<^verbatim>\<open>find_children\<close> twice with the same arguments, on a clump whose region
  is unchanged and with collaborators that answer the same question the same way, gives
  the same kept contour ids and as many children the second time as the first; the
  children of the second call are equal to those of the first in every attribute but the
  identity of their info list, whose contents are equal too. They are new objects: none
  of the first call's children is a child after the second call.
\<close>

theorem find_children_idempotent:
  fixes env :: "('r, 'i) env" and minv :: real and maxv :: "real option"
  assumes "valid_clump s a"
  defines "s1 \<equiv> find_children env a minv maxv s"
  defines "s2 \<equiv> find_children env a minv maxv s1"
  shows "\<exists>cs1 cs2.
     children (clumps s1 ! a) = Some cs1 \<and> children (clumps s2 ! a) = Some cs2 \<and>
     length cs2 = length cs1 \<and>
     kept_contours env (data (clumps s1 ! a)) (contours_of env (clumps s1 ! a) minv maxv) =
       kept_contours env (data (clumps s ! a)) (contours_of env (clumps s ! a) minv maxv) \<and>
     map (\<lambda>c. (clumps s2 ! c)\<lparr>clump_info := 0\<rparr>) cs2 = map (\<lambda>c. (clumps s1 ! c)\<lparr>clump_info := 0\<rparr>) cs1 \<and>
     map (\<lambda>c. infos s2 ! clump_info (clumps s2 ! c)) cs2 = map (\<lambda>c. infos s1 ! clump_info (clumps s1 ! c)) cs1 \<and>
     set cs1 \<inter> set cs2 = {}"
proof -
  define me where "me = clumps s ! a"
  define cids where "cids = contours_of env me minv maxv"
  define kept where "kept = kept_contours env (data me) cids"
  define k where "k = length kept"
  define n where "n = length (clumps s)"
  define m where "m = length (infos s)"
  define L where "L = infos s ! clump_info me"
  have a: "a < n" and ci: "clump_info me < m"
    using assms(1) by (simp_all add: valid_clump_def n_def m_def me_def)
  define cs1 where "cs1 = [n ..< n + k]"
  define cs2 where "cs2 = [n + k ..< n + k + k]"
  define new1 where "new1 = new_children env me a cids m kept"
  define new2 where "new2 = new_children env me a cids (m + k) kept"
  define pre1 where "pre1 = (clumps s)[a := me\<lparr>children := Some cs1\<rparr>]"
  have cl1: "clumps s1 = pre1 @ new1"
    unfolding s1_def pre1_def new1_def cs1_def k_def kept_def cids_def me_def n_def m_def
    using a [unfolded n_def] by (rule find_children_clumps)
  have in1: "infos s1 = infos s @ replicate k L"
    unfolding s1_def k_def kept_def cids_def me_def L_def
    using assms(1) by (rule find_children_infos)
  have lp1: "length pre1 = n" by (simp add: pre1_def n_def)
  have ln1: "length new1 = k" by (simp add: new1_def k_def)
  have l1: "length (clumps s1) = n + k" by (simp add: cl1 lp1 ln1)
  have me1: "clumps s1 ! a = me\<lparr>children := Some cs1\<rparr>"
    using a by (simp add: cl1 nth_append lp1) (simp add: pre1_def n_def)
  have a1: "a < length (clumps s1)" using a l1 by simp
  have v1: "valid_clump s1 a"
    using a1 ci by (simp add: valid_clump_def me1 in1 m_def)
  define pre2 where "pre2 = (clumps s1)[a := me\<lparr>children := Some cs2\<rparr>]"
  have same_kept: "kept_contours env (data (clumps s1 ! a)) (contours_of env (clumps s1 ! a) minv maxv) = kept"
    by (simp add: me1 kept_def cids_def)
  have cl2: "clumps s2 = pre2 @ new2"
    using find_children_clumps [OF a1, of env minv maxv]
    by (simp add: s2_def [symmetric] me1 cids_def [symmetric] kept_def [symmetric] k_def [symmetric]
         l1 in1 m_def [symmetric] pre2_def cs2_def new2_def)
  have in2: "infos s2 = infos s1 @ replicate k L"
    using find_children_infos [OF v1, of env minv maxv] ci
    by (simp add: s2_def [symmetric] me1 cids_def [symmetric] kept_def [symmetric] k_def [symmetric]
         in1 nth_append m_def L_def)
  have lp2: "length pre2 = n + k" by (simp add: pre2_def l1)
  have ln2: "length new2 = k" by (simp add: new2_def k_def)
  have ch1: "children (clumps s1 ! a) = Some cs1" by (simp add: me1)
  have ch2: "children (clumps s2 ! a) = Some cs2"
    using a by (simp add: cl2 nth_append lp2) (simp add: pre2_def l1)
  have r1: "map (\<lambda>c. clumps s1 ! c) cs1 = new1"
    unfolding cl1 cs1_def ln1 [symmetric] using map_nth_append_upt [OF lp1, of "\<lambda>c. c" new1] by simp
  have r2: "map (\<lambda>c. clumps s2 ! c) cs2 = new2"
    unfolding cl2 cs2_def using map_nth_append_upt [OF lp2, of "\<lambda>c. c" new2] by (simp add: ln2)
  have "map (\<lambda>c. (clumps s2 ! c)\<lparr>clump_info := 0\<rparr>) cs2 = map (\<lambda>c. c\<lparr>clump_info := 0\<rparr>) (map (\<lambda>c. clumps s2 ! c) cs2)"
    by simp
  also have "\<dots> = map (\<lambda>c. c\<lparr>clump_info := 0\<rparr>) (map (\<lambda>c. clumps s1 ! c) cs1)"
    unfolding r1 r2 new1_def new2_def
    using new_children_content [of env me a cids "m + k" kept] new_children_content [of env me a cids m kept]
    by simp
  finally have content: "map (\<lambda>c. (clumps s2 ! c)\<lparr>clump_info := 0\<rparr>) cs2 = map (\<lambda>c. (clumps s1 ! c)\<lparr>clump_info := 0\<rparr>) cs1"
    by simp
  have i1: "map (\<lambda>c. clump_info (clumps s1 ! c)) cs1 = [m ..< m + k]"
    using arg_cong [OF r1, of "map clump_info"] by (simp add: new1_def clump_info_new_children k_def comp_def)
  have i2: "map (\<lambda>c. clump_info (clumps s2 ! c)) cs2 = [m + k ..< m + k + k]"
    using arg_cong [OF r2, of "map clump_info"] by (simp add: new2_def clump_info_new_children k_def comp_def)
  have "map (\<lambda>c. infos s1 ! clump_info (clumps s1 ! c)) cs1 = map (\<lambda>i. infos s1 ! i) (map (\<lambda>c. clump_info (clumps s1 ! c)) cs1)"
    by simp
  also have "\<dots> = replicate k L"
    unfolding i1 in1 by (rule nth_equalityI) (simp_all add: nth_append m_def)
  finally have li1: "map (\<lambda>c. infos s1 ! clump_info (clumps s1 ! c)) cs1 = replicate k L" .
  have "map (\<lambda>c. infos s2 ! clump_info (clumps s2 ! c)) cs2 = map (\<lambda>i. infos s2 ! i) (map (\<lambda>c. clump_info (clumps s2 ! c)) cs2)"
    by simp
  also have "\<dots> = replicate k L"
    unfolding i2 in2 in1 by (rule nth_equalityI) (simp_all add: nth_append m_def)
  finally have li2: "map (\<lambda>c. infos s2 ! clump_info (clumps s2 ! c)) cs2 = replicate k L" .
  have disj: "set cs1 \<inter> set cs2 = {}" by (auto simp: cs1_def cs2_def)
  have len: "length cs2 = length cs1" by (simp add: cs1_def cs2_def)
  show ?thesis
    using ch1 ch2 len same_kept content li1 li2 disj
    unfolding kept_def cids_def me_def by auto
qed

theorem find_children_idempotent_witness:
  "children (clumps (find_children line_env 0 1 None (line_root [5, 5, 0, 7, 0, 3, 3] ''valid'')) ! 0) = Some [1, 2, 3] \<and>
   children (clumps (find_children line_env 0 1 None
                      (find_children line_env 0 1 None (line_root [5, 5, 0, 7, 0, 3, 3] ''valid''))) ! 0) = Some [4, 5, 6] \<and>
   map (\<lambda>c. data (clumps (find_children line_env 0 1 None
                      (find_children line_env 0 1 None (line_root [5, 5, 0, 7, 0, 3, 3] ''valid''))) ! c)) [4, 5, 6] =
   map (\<lambda>c. data (clumps (find_children line_env 0 1 None (line_root [5, 5, 0, 7, 0, 3, 3] ''valid'')) ! c)) [1, 2, 3]"
proof -
  define s where "s = line_root [5, 5, 0, 7, 0, 3, 3] ''valid''"
  define s1 where "s1 = find_children line_env 0 1 None s"
  define s2 where "s2 = find_children line_env 0 1 None s1"
  have v: "valid_clump s 0"
    unfolding s_def by code_simp
  have c1: "children (clumps s1 ! 0) = Some [1, 2, 3]"
    unfolding s1_def s_def by code_simp
  have c2: "children (clumps s2 ! 0) = Some [4, 5, 6]"
    unfolding s2_def s1_def s_def by code_simp
  from find_children_idempotent [OF v, of line_env 1 None]
  obtain cs1 cs2 where "children (clumps s1 ! 0) = Some cs1" "children (clumps s2 ! 0) = Some cs2"
    and "map (\<lambda>c. (clumps s2 ! c)\<lparr>clump_info := 0\<rparr>) cs2 = map (\<lambda>c. (clumps s1 ! c)\<lparr>clump_info := 0\<rparr>) cs1"
    unfolding s1_def [symmetric] s2_def [symmetric] by blast
  then have "map (\<lambda>c. (clumps s2 ! c)\<lparr>clump_info := 0\<rparr>) [4, 5, 6] = map (\<lambda>c. (clumps s1 ! c)\<lparr>clump_info := 0\<rparr>) [1, 2, 3]"
    using c1 c2 by simp
  then have "map data (map (\<lambda>c. (clumps s2 ! c)\<lparr>clump_info := 0\<rparr>) [4, 5, 6]) =
             map data (map (\<lambda>c. (clumps s1 ! c)\<lparr>clump_info := 0\<rparr>) [1, 2, 3])"
    by (rule arg_cong)
  then have "map (\<lambda>c. data (clumps s2 ! c)) [4, 5, 6] = map (\<lambda>c. data (clumps s1 ! c)) [1, 2, 3]"
    by simp
  with c1 c2 show ?thesis unfolding s2_def s1_def s_def by blast
qed

section \<open>What \<^verbatim>\<open>find_clumps\<close> leaves alone\<close>

lemma frame_at_refl: "frame_at a s s"
  by (simp add: frame_at_def)

lemma frame_at_trans:
  "a < length (clumps s) \<Longrightarrow> frame_at a s s1 \<Longrightarrow> frame_at a s1 s2 \<Longrightarrow> frame_at a s s2"
  by (auto simp: frame_at_def)

lemma frame_at_function_value:
  "frame_at a s s' \<Longrightarrow> function_value (clumps s' ! a) = function_value (clumps s ! a)"
proof -
  assume "frame_at a s s'"
  then have "(clumps s' ! a)\<lparr>children := None\<rparr> = (clumps s ! a)\<lparr>children := None\<rparr>"
    by (simp add: frame_at_def)
  then have "function_value ((clumps s' ! a)\<lparr>children := None\<rparr>) = function_value ((clumps s ! a)\<lparr>children := None\<rparr>)"
    by (rule arg_cong)
  then show ?thesis by simp
qed

lemma find_children_frame:
  "a < length (clumps s) \<Longrightarrow> frame_at a s (find_children env a minv maxv s)"
  by (simp add: frame_at_def find_children_clumps nth_append)

lemma link_children_frame:
  "a < length (clumps s) \<Longrightarrow> frame_at a s (link_children a these s)"
  by (simp add: frame_at_def link_children_def)

lemma isValid_clumps:
  "clumps (snd (isValid env c s)) = clumps s \<or>
   clumps (snd (isValid env c s)) = (clumps s)[c := (clumps s ! c)\<lparr>function_value := fst (isValid env c s)\<rparr>]"
  by (simp add: isValid_def Let_def split: option.splits)

lemma isValid_None:
  "function_value (clumps s ! c) = None \<Longrightarrow>
   clumps (snd (isValid env c s)) = (clumps s)[c := (clumps s ! c)\<lparr>function_value := fst (isValid env c s)\<rparr>]"
  by (simp add: isValid_def Let_def)

lemma investigate_outside:
  assumes hypR: "\<And>c s s'. c < length (clumps s) \<Longrightarrow> R c s = Inr s' \<Longrightarrow> frame_at c s s'"
  shows "investigate R env cs these s = Inr (these', s') \<Longrightarrow> \<forall>c\<in>set cs. c < length (clumps s) \<Longrightarrow>
     length (clumps s) \<le> length (clumps s') \<and>
     (\<forall>b < length (clumps s). b \<notin> set cs \<longrightarrow> clumps s' ! b = clumps s ! b)"
proof (induction cs arbitrary: these s)
  case Nil
  then show ?case by simp
next
  case (Cons c rest)
  from Cons.prems(1) obtain s1 where r: "R c s = Inr s1"
    by (auto split: sum.splits)
  have c: "c < length (clumps s)" using Cons.prems(2) by simp
  have f1: "frame_at c s s1" using hypR [OF c r] .
  define s2 where "s2 = (if has_children (clumps s1 ! c) then s1 else snd (isValid env c s1))"
  obtain th2 where inv: "investigate R env rest th2 s2 = Inr (these', s')"
    using Cons.prems(1) r by (auto simp: s2_def Let_def split: if_splits prod.splits)
  have c2: "clumps s2 = clumps s1 \<or> (\<exists>v. clumps s2 = (clumps s1)[c := (clumps s1 ! c)\<lparr>function_value := v\<rparr>])"
    using isValid_clumps [of env c s1] by (auto simp: s2_def)
  have len: "length (clumps s) \<le> length (clumps s2)"
    using f1 c2 by (auto simp: frame_at_def)
  have same: "\<forall>b < length (clumps s). b \<noteq> c \<longrightarrow> clumps s2 ! b = clumps s ! b"
    using f1 c2 by (auto simp: frame_at_def)
  have "\<forall>c\<in>set rest. c < length (clumps s2)" using Cons.prems(2) len by auto
  from Cons.IH [OF inv this]
  have "length (clumps s2) \<le> length (clumps s')"
    and "\<forall>b < length (clumps s2). b \<notin> set rest \<longrightarrow> clumps s' ! b = clumps s2 ! b" by auto
  then show ?case using len same by auto
qed

lemma find_clumps_frame:
  "find_clumps n env a minv maxv d s = Inr s' \<Longrightarrow> a < length (clumps s) \<Longrightarrow> frame_at a s s'"
proof (induction n arbitrary: a minv s s')
  case 0
  then show ?case by simp
next
  case (Suc n)
  show ?case
  proof (cases "maxv \<le> minv")
    case True
    then show ?thesis using Suc.prems by (simp add: frame_at_refl)
  next
    case False
    define s1 where "s1 = find_children env a minv None s"
    define k where "k = length (kept_contours env (data (clumps s ! a)) (contours_of env (clumps s ! a) minv None))"
    have f1: "frame_at a s s1" unfolding s1_def using Suc.prems(2) by (rule find_children_frame)
    have l1: "length (clumps s1) = length (clumps s) + k"
      by (simp add: s1_def k_def find_children_clumps [OF Suc.prems(2)])
    have ch1: "children (clumps s1 ! a) = Some [length (clumps s) ..< length (clumps s) + k]"
      using Suc.prems(2) by (simp add: s1_def k_def find_children_clumps [OF Suc.prems(2)] nth_append)
    have a1: "a < length (clumps s1)" using l1 Suc.prems(2) by simp
    consider (one) "k = 1" | (none) "k = 0" | (many) "1 < k" by linarith
    then show ?thesis
    proof cases
      case one
      then have "find_clumps n env a (minv * d) maxv d s1 = Inr s'"
        using Suc.prems(1) False by (simp add: s1_def [symmetric] ch1)
      from Suc.IH [OF this a1] have "frame_at a s1 s'" .
      with f1 show ?thesis using Suc.prems(2) by (rule frame_at_trans [rotated])
    next
      case none
      then have "s' = s1" using Suc.prems(1) False by (simp add: s1_def [symmetric] ch1)
      then show ?thesis using f1 by simp
    next
      case many
      then obtain these s2 where
        inv: "investigate (\<lambda>child. find_clumps n env child (minv * d) maxv d) env
                [length (clumps s) ..< length (clumps s) + k] [] s1 = Inr (these, s2)"
        and s': "s' = link_children a these s2"
        using Suc.prems(1) False by (auto simp: s1_def [symmetric] ch1 split: sum.splits)
      have "\<forall>c\<in>set [length (clumps s) ..< length (clumps s) + k]. c < length (clumps s1)"
        using l1 by simp
      from investigate_outside [OF _ inv this] Suc.IH
      have len2: "length (clumps s1) \<le> length (clumps s2)"
        and same2: "\<forall>b < length (clumps s1). b \<notin> set [length (clumps s) ..< length (clumps s) + k] \<longrightarrow> clumps s2 ! b = clumps s1 ! b"
        by blast+
      have f2: "frame_at a s s2"
        using len2 same2 Suc.prems(2) a1 f1 l1 by (auto simp: frame_at_def)
      have a2: "a < length (clumps s2)" using a1 len2 by simp
      have "frame_at a s2 s'" unfolding s' using a2 by (rule link_children_frame)
      with f2 show ?thesis using Suc.prems(2) by (rule frame_at_trans [rotated])
    qed
  qed
qed

lemma investigate_survivors:
  assumes hypR: "\<And>c s s'. c < length (clumps s) \<Longrightarrow> R c s = Inr s' \<Longrightarrow> frame_at c s s'"
  shows "investigate R env cs these s = Inr (these', s') \<Longrightarrow> distinct cs \<Longrightarrow>
     \<forall>c\<in>set cs. c < length (clumps s) \<and> function_value (clumps s ! c) = None \<Longrightarrow>
     these' = these @ filter (survivor s') cs"
proof (induction cs arbitrary: these s)
  case Nil
  then show ?case by simp
next
  case (Cons c rest)
  from Cons.prems(1) obtain s1 where r: "R c s = Inr s1"
    by (auto split: sum.splits)
  have c: "c < length (clumps s)" and fv: "function_value (clumps s ! c) = None"
    using Cons.prems(3) by simp_all
  have f1: "frame_at c s s1" using hypR [OF c r] .
  have fv1: "function_value (clumps s1 ! c) = None"
    using frame_at_function_value [OF f1] fv by simp
  have c1: "c < length (clumps s1)" using f1 c by (simp add: frame_at_def)
  have rest1: "\<forall>x\<in>set rest. x < length (clumps s1) \<and> clumps s1 ! x = clumps s ! x"
    using f1 Cons.prems(2,3) by (auto simp: frame_at_def)
  have notin: "c \<notin> set rest" and dr: "distinct rest" using Cons.prems(2) by simp_all
  show ?case
  proof (cases "has_children (clumps s1 ! c)")
    case True
    then have inv: "investigate R env rest (these @ [c]) s1 = Inr (these', s')"
      using Cons.prems(1) r by simp
    have pre: "\<forall>x\<in>set rest. x < length (clumps s1) \<and> function_value (clumps s1 ! x) = None"
      using rest1 Cons.prems(3) by simp
    have "\<forall>x\<in>set rest. x < length (clumps s1)" using rest1 by simp
    from investigate_outside [of R, OF hypR inv this] c1 notin
    have "clumps s' ! c = clumps s1 ! c" by blast
    then have "survivor s' c"
      using True by (simp add: survivor_def)
    then show ?thesis using Cons.IH [OF inv dr pre] by simp
  next
    case False
    define v where "v = fst (isValid env c s1)"
    define s2 where "s2 = snd (isValid env c s1)"
    have cl2: "clumps s2 = (clumps s1)[c := (clumps s1 ! c)\<lparr>function_value := v\<rparr>]"
      unfolding s2_def v_def using fv1 by (rule isValid_None)
    have inv: "investigate R env rest (if v = Some True then these @ [c] else these) s2 = Inr (these', s')"
      using Cons.prems(1) r False by (auto simp: v_def s2_def case_prod_beta Let_def split: if_splits)
    have pre: "\<forall>x\<in>set rest. x < length (clumps s2) \<and> function_value (clumps s2 ! x) = None"
    proof
      fix x assume x: "x \<in> set rest"
      then have "x \<noteq> c" using notin by auto
      then have "clumps s2 ! x = clumps s1 ! x" by (simp add: cl2)
      then show "x < length (clumps s2) \<and> function_value (clumps s2 ! x) = None"
        using rest1 Cons.prems(3) x by (simp add: cl2)
    qed
    have "\<forall>x\<in>set rest. x < length (clumps s2)" using pre by simp
    moreover have "c < length (clumps s2)" using c1 by (simp add: cl2)
    ultimately have "clumps s' ! c = clumps s2 ! c"
      using investigate_outside [of R, OF hypR inv] notin by blast
    then have at_c: "clumps s' ! c = (clumps s1 ! c)\<lparr>function_value := v\<rparr>"
      using c1 by (simp add: cl2)
    then have "survivor s' c = (v = Some True)" using False by (simp add: survivor_def has_children_def)
    then show ?thesis using Cons.IH [OF inv dr pre] by simp
  qed
qed

lemma frame_at_data:
  "frame_at c s s1 \<Longrightarrow> b < length (clumps s) \<Longrightarrow> data (clumps s1 ! b) = data (clumps s ! b)"
proof (cases "b = c")
  case True
  assume "frame_at c s s1"
  then have "(clumps s1 ! c)\<lparr>children := None\<rparr> = (clumps s ! c)\<lparr>children := None\<rparr>"
    by (simp add: frame_at_def)
  then have "data ((clumps s1 ! c)\<lparr>children := None\<rparr>) = data ((clumps s ! c)\<lparr>children := None\<rparr>)"
    by (rule arg_cong)
  then show ?thesis using True by simp
next
  case False
  assume "frame_at c s s1" "b < length (clumps s)"
  then show ?thesis using False by (simp add: frame_at_def)
qed

lemma investigate_data:
  assumes hypR: "\<And>c s s'. c < length (clumps s) \<Longrightarrow> R c s = Inr s' \<Longrightarrow> frame_at c s s'"
  shows "investigate R env cs these s = Inr (these', s') \<Longrightarrow> \<forall>c\<in>set cs. c < length (clumps s) \<Longrightarrow>
     length (clumps s) \<le> length (clumps s') \<and>
     (\<forall>b < length (clumps s). data (clumps s' ! b) = data (clumps s ! b))"
proof (induction cs arbitrary: these s)
  case Nil
  then show ?case by simp
next
  case (Cons c rest)
  from Cons.prems(1) obtain s1 where r: "R c s = Inr s1"
    by (auto split: sum.splits)
  have c: "c < length (clumps s)" using Cons.prems(2) by simp
  have f1: "frame_at c s s1" using hypR [OF c r] .
  define s2 where "s2 = (if has_children (clumps s1 ! c) then s1 else snd (isValid env c s1))"
  obtain th2 where inv: "investigate R env rest th2 s2 = Inr (these', s')"
    using Cons.prems(1) r by (auto simp: s2_def Let_def split: if_splits prod.splits)
  have c2: "clumps s2 = clumps s1 \<or> (\<exists>v. clumps s2 = (clumps s1)[c := (clumps s1 ! c)\<lparr>function_value := v\<rparr>])"
    using isValid_clumps [of env c s1] by (auto simp: s2_def)
  have len1: "length (clumps s) \<le> length (clumps s1)" using f1 by (simp add: frame_at_def)
  have len: "length (clumps s) \<le> length (clumps s2)"
    using len1 c2 by auto
  have d2: "data (clumps s2 ! b) = data (clumps s1 ! b)" if "b < length (clumps s1)" for b
    using c2 that by (cases "b = c") auto
  have same: "\<forall>b < length (clumps s). data (clumps s2 ! b) = data (clumps s ! b)"
    using frame_at_data [OF f1] d2 len1 by auto
  have "\<forall>c\<in>set rest. c < length (clumps s2)" using Cons.prems(2) len by auto
  from Cons.IH [OF inv this]
  have "length (clumps s2) \<le> length (clumps s')"
    and "\<forall>b < length (clumps s2). data (clumps s' ! b) = data (clumps s2 ! b)" by auto
  then show ?case using len same by auto
qed

lemma investigate_recursed:
  "investigate R env cs these s = Inr (these', s') \<Longrightarrow> \<forall>c\<in>set cs. \<exists>sa sb. R c sa = Inr sb"
proof (induction cs arbitrary: these s)
  case Nil
  show ?case by simp
next
  case (Cons c rest)
  from Cons.prems obtain s1 where r: "R c s = Inr s1"
    by (auto split: sum.splits)
  define s2 where "s2 = (if has_children (clumps s1 ! c) then s1 else snd (isValid env c s1))"
  obtain th2 where inv: "investigate R env rest th2 s2 = Inr (these', s')"
    using Cons.prems r by (auto simp: s2_def Let_def split: if_splits prod.splits)
  from Cons.IH [OF inv] r show ?case by auto
qed

lemma frame_at_length: "frame_at a s s' \<Longrightarrow> length (clumps s) \<le> length (clumps s')"
  by (simp add: frame_at_def)

lemma investigate_subset:
  "investigate R env cs these s = Inr (these', s') \<Longrightarrow> set these' \<subseteq> set these \<union> set cs"
proof (induction cs arbitrary: these s)
  case Nil
  then show ?case by simp
next
  case (Cons c rest)
  from Cons.prems obtain s1 where r: "R c s = Inr s1"
    by (auto split: sum.splits)
  define s2 where "s2 = (if has_children (clumps s1 ! c) then s1 else snd (isValid env c s1))"
  obtain th2 where inv: "investigate R env rest th2 s2 = Inr (these', s')" and th2: "set th2 \<subseteq> set these \<union> {c}"
    using Cons.prems r by (auto simp: s2_def Let_def split: if_splits prod.splits)
  from Cons.IH [OF inv] th2 show ?case by auto
qed

lemma investigate_fresh:
  assumes hypR: "\<And>c s s'. c < length (clumps s) \<Longrightarrow> R c s = Inr s' \<Longrightarrow> frame_at c s s'"
    and hypF: "\<And>c s s'. c < length (clumps s) \<Longrightarrow> R c s = Inr s' \<Longrightarrow> fresh_children c s s'"
  shows "investigate R env cs these s = Inr (these', s') \<Longrightarrow> distinct cs \<Longrightarrow>
     \<forall>c\<in>set cs. c < length (clumps s) \<Longrightarrow>
     \<forall>c\<in>set cs. fresh_children c s s'"
proof (induction cs arbitrary: these s)
  case Nil
  then show ?case by simp
next
  case (Cons c rest)
  from Cons.prems(1) obtain s1 where r: "R c s = Inr s1"
    by (auto split: sum.splits)
  have c: "c < length (clumps s)" using Cons.prems(3) by simp
  have f1: "frame_at c s s1" using hypR [OF c r] .
  have fr1: "fresh_children c s s1" using hypF [OF c r] .
  have len1: "length (clumps s) \<le> length (clumps s1)" using f1 by (rule frame_at_length)
  define s2 where "s2 = (if has_children (clumps s1 ! c) then s1 else snd (isValid env c s1))"
  obtain th2 where inv: "investigate R env rest th2 s2 = Inr (these', s')"
    using Cons.prems(1) r by (auto simp: s2_def Let_def split: if_splits prod.splits)
  have c2: "clumps s2 = clumps s1 \<or> (\<exists>v. clumps s2 = (clumps s1)[c := (clumps s1 ! c)\<lparr>function_value := v\<rparr>])"
    using isValid_clumps [of env c s1] by (auto simp: s2_def)
  have len2: "length (clumps s2) = length (clumps s1)" using c2 by auto
  have ch2: "children (clumps s2 ! b) = children (clumps s1 ! b)" if "b < length (clumps s1)" for b
    using c2 that by (cases "b = c") auto
  have notin: "c \<notin> set rest" and dr: "distinct rest" using Cons.prems(2) by simp_all
  have in2: "\<forall>x\<in>set rest. x < length (clumps s2)" using Cons.prems(3) len1 len2 by auto
  from investigate_outside [of R, OF hypR inv in2]
  have len': "length (clumps s2) \<le> length (clumps s')"
    and out: "\<forall>b < length (clumps s2). b \<notin> set rest \<longrightarrow> clumps s' ! b = clumps s2 ! b"
    by auto
  have "clumps s' ! c = clumps s2 ! c" using out c len1 len2 notin by auto
  then have chc: "children (clumps s' ! c) = children (clumps s1 ! c)"
    using ch2 [of c] c len1 by simp
  have first: "fresh_children c s s'"
    using fr1 chc len2 len' by (auto simp: fresh_children_def child_list_def)
  have others: "fresh_children x s s'" if x: "x \<in> set rest" for x
  proof -
    have xc: "x \<noteq> c" using x notin by auto
    have xl: "x < length (clumps s)" using x Cons.prems(3) by simp
    have "clumps s1 ! x = clumps s ! x" using f1 xc xl by (simp add: frame_at_def)
    then have "children (clumps s2 ! x) = children (clumps s ! x)"
      using ch2 [of x] xl len1 by simp
    moreover have "fresh_children x s2 s'" using Cons.IH [OF inv dr in2] x by blast
    ultimately show ?thesis
      using len1 len2 by (auto simp: fresh_children_def)
  qed
  show ?case using first others by simp
qed

lemma find_clumps_fresh:
  "find_clumps n env a minv maxv d s = Inr s' \<Longrightarrow> a < length (clumps s) \<Longrightarrow> fresh_children a s s'"
proof (induction n arbitrary: a minv s s')
  case 0
  then show ?case by simp
next
  case (Suc n)
  show ?case
  proof (cases "maxv \<le> minv")
    case True
    then show ?thesis using Suc.prems by (simp add: fresh_children_def)
  next
    case False
    define s1 where "s1 = find_children env a minv None s"
    define k where "k = length (kept_contours env (data (clumps s ! a)) (contours_of env (clumps s ! a) minv None))"
    define cs where "cs = [length (clumps s) ..< length (clumps s) + k]"
    have l1: "length (clumps s1) = length (clumps s) + k"
      by (simp add: s1_def k_def find_children_clumps [OF Suc.prems(2)])
    have ch1: "children (clumps s1 ! a) = Some cs"
      unfolding s1_def cs_def k_def using Suc.prems(2) by (rule find_children_children)
    have a1: "a < length (clumps s1)" using l1 Suc.prems(2) by simp
    consider (one) "k = 1" | (none) "k = 0" | (many) "1 < k" by linarith
    then show ?thesis
    proof cases
      case one
      then have run: "find_clumps n env a (minv * d) maxv d s1 = Inr s'"
        using Suc.prems(1) False by (simp add: s1_def [symmetric] ch1 cs_def)
      have "frame_at a s1 s'" using run a1 by (rule find_clumps_frame)
      then have len: "length (clumps s1) \<le> length (clumps s')" by (rule frame_at_length)
      from Suc.IH [OF run a1] have "fresh_children a s1 s'" .
      then show ?thesis
        using len l1 one by (auto simp: fresh_children_def child_list_def ch1 cs_def)
    next
      case none
      then have "s' = s1" using Suc.prems(1) False by (simp add: s1_def [symmetric] ch1 cs_def)
      then show ?thesis by (simp add: fresh_children_def child_list_def ch1 cs_def none)
    next
      case many
      have ne: "cs \<noteq> []" "length cs \<noteq> Suc 0" using many by (auto simp: cs_def)
      have "(case investigate (\<lambda>child. find_clumps n env child (minv * d) maxv d) env cs [] s1 of
               Inl e \<Rightarrow> Inl e
             | Inr (these_children, s2) \<Rightarrow> Inr (link_children a these_children s2)) = Inr s'"
        using Suc.prems(1) False ne by (simp add: s1_def [symmetric] ch1)
      then obtain these s2 where
        inv: "investigate (\<lambda>child. find_clumps n env child (minv * d) maxv d) env cs [] s1 = Inr (these, s2)"
        and s': "s' = link_children a these s2"
        by (auto split: sum.splits)
      have frame: "\<And>c s s'. c < length (clumps s) \<Longrightarrow> find_clumps n env c (minv * d) maxv d s = Inr s' \<Longrightarrow> frame_at c s s'"
        by (rule find_clumps_frame)
      have fresh: "\<And>c s s'. c < length (clumps s) \<Longrightarrow> find_clumps n env c (minv * d) maxv d s = Inr s' \<Longrightarrow> fresh_children c s s'"
        using Suc.IH by blast
      have in1: "\<forall>c\<in>set cs. c < length (clumps s1)" by (simp add: cs_def l1)
      have none1: "\<forall>c\<in>set cs. children (clumps s1 ! c) = None"
      proof
        fix c assume "c \<in> set cs"
        then obtain j where j: "c = length (clumps s) + j" "j < k"
          by (auto simp: cs_def intro: that [of "c - length (clumps s)"])
        have "clumps s1 ! c = new_children env (clumps s ! a) a (contours_of env (clumps s ! a) minv None) (length (infos s))
                 (kept_contours env (data (clumps s ! a)) (contours_of env (clumps s ! a) minv None)) ! j"
          by (simp add: s1_def find_children_clumps [OF Suc.prems(2)] nth_append j)
        then show "children (clumps s1 ! c) = None"
          using j(2) by (simp add: nth_new_children new_clump_object_def k_def)
      qed
      have dist: "distinct cs" by (simp add: cs_def)
      from investigate_fresh [of "\<lambda>child. find_clumps n env child (minv * d) maxv d", OF frame fresh inv dist in1]
      have fr2: "\<forall>c\<in>set cs. fresh_children c s1 s2" .
      from investigate_outside [of "\<lambda>child. find_clumps n env child (minv * d) maxv d", OF frame inv in1]
      have len2: "length (clumps s1) \<le> length (clumps s2)" by simp
      have a2: "a < length (clumps s2)" using a1 len2 by simp
      have ls': "length (clumps s') = length (clumps s2)" by (simp add: s' link_children_def)
      have these_cs: "set these \<subseteq> set cs"
        using investigate_subset [OF inv] by simp
      have at_a: "clumps s' ! a = (clumps s2 ! a)\<lparr>children :=
            (if 1 < length these then Some these
             else if length these = 1 then children (clumps s2 ! (these ! 0))
             else Some [])\<rparr>"
        using a2 by (simp add: s' link_children_def)
      have "\<forall>x \<in> set (child_list (clumps s' ! a)). length (clumps s) \<le> x \<and> x < length (clumps s')"
      proof (cases "length these = 1")
        case True
        then have "these ! 0 \<in> set these" by (simp del: One_nat_def)
        then have c: "these ! 0 \<in> set cs" using these_cs by blast
        then have "fresh_children (these ! 0) s1 s2" using fr2 by blast
        then have "\<forall>x \<in> set (child_list (clumps s2 ! (these ! 0))). length (clumps s1) \<le> x \<and> x < length (clumps s2)"
          using none1 c by (auto simp: fresh_children_def child_list_def)
        then show ?thesis
          using True l1 by (auto simp: at_a ls' child_list_def)
      next
        case False
        then show ?thesis
          using these_cs l1 len2 by (auto simp: at_a ls' child_list_def cs_def)
      qed
      then show ?thesis by (simp add: fresh_children_def)
    qed
  qed
qed

lemma find_clumps_many:
  fixes env :: "('r, 'i) env"
  assumes a: "a < length (clumps s)" and lt: "minv < maxv"
    and run: "find_clumps (Suc depth) env a minv maxv d s = Inr s'"
    and many: "1 < length (kept_contours env (data (clumps s ! a)) (contours_of env (clumps s ! a) minv None))"
  defines "kept \<equiv> kept_contours env (data (clumps s ! a)) (contours_of env (clumps s ! a) minv None)"
  defines "cs \<equiv> [length (clumps s) ..< length (clumps s) + length kept]"
  defines "s1 \<equiv> find_children env a minv None s"
  shows "\<exists>these s2.
     investigate (\<lambda>child. find_clumps depth env child (minv * d) maxv d) env cs [] s1 = Inr (these, s2) \<and>
     s' = link_children a these s2 \<and>
     these = filter (survivor s') cs \<and>
     a < length (clumps s2) \<and>
     (\<forall>c \<in> set cs. clumps s' ! c = clumps s2 ! c \<and> data (clumps s' ! c) = data (clumps s1 ! c) \<and>
                   (\<forall>x \<in> set (child_list (clumps s' ! c)). length (clumps s1) \<le> x))"
proof -
  have ch1: "children (clumps s1 ! a) = Some cs"
    unfolding s1_def cs_def kept_def using a by (rule find_children_children)
  have l1: "length (clumps s1) = length (clumps s) + length kept"
    by (simp add: s1_def kept_def find_children_clumps [OF a])
  have lcs: "1 < length cs" using many by (simp add: cs_def kept_def)
  obtain these s2 where
    inv: "investigate (\<lambda>child. find_clumps depth env child (minv * d) maxv d) env cs [] s1 = Inr (these, s2)"
    and s': "s' = link_children a these s2"
  proof -
    have ne: "cs \<noteq> []" "length cs \<noteq> Suc 0" using lcs by auto
    have "(case investigate (\<lambda>child. find_clumps depth env child (minv * d) maxv d) env cs [] s1 of
             Inl e \<Rightarrow> Inl e
           | Inr (these_children, s2) \<Rightarrow> Inr (link_children a these_children s2)) = Inr s'"
      using run lt ne by (simp add: s1_def [symmetric] ch1)
    then show ?thesis
      using that by (auto split: sum.splits)
  qed
  have frame: "\<And>c s s'. c < length (clumps s) \<Longrightarrow> find_clumps depth env c (minv * d) maxv d s = Inr s' \<Longrightarrow> frame_at c s s'"
    by (rule find_clumps_frame)
  have in1: "\<forall>c\<in>set cs. c < length (clumps s1)" by (simp add: cs_def l1)
  have fresh: "\<forall>c\<in>set cs. c < length (clumps s1) \<and> function_value (clumps s1 ! c) = None"
  proof
    fix c assume c: "c \<in> set cs"
    then obtain j where j: "c = length (clumps s) + j" "j < length kept"
      by (auto simp: cs_def intro: that [of "c - length (clumps s)"])
    have "clumps s1 ! c = new_children env (clumps s ! a) a (contours_of env (clumps s ! a) minv None) (length (infos s)) kept ! j"
      by (simp add: s1_def kept_def find_children_clumps [OF a] nth_append j)
    then have "function_value (clumps s1 ! c) = None"
      using j(2) by (simp add: nth_new_children new_clump_object_def)
    then show "c < length (clumps s1) \<and> function_value (clumps s1 ! c) = None"
      using in1 c by simp
  qed
  have dist: "distinct cs" by (simp add: cs_def)
  have these: "these = filter (survivor s2) cs"
    using investigate_survivors [of "\<lambda>child. find_clumps depth env child (minv * d) maxv d", OF frame inv dist fresh]
    by simp
  have notin: "a \<notin> set cs" using a by (simp add: cs_def)
  from investigate_data [of "\<lambda>child. find_clumps depth env child (minv * d) maxv d", OF frame inv in1]
  have len2: "length (clumps s1) \<le> length (clumps s2)"
    and dat2: "\<forall>b < length (clumps s1). data (clumps s2 ! b) = data (clumps s1 ! b)"
    by auto
  have a2: "a < length (clumps s2)" using a l1 len2 by simp
  have same: "clumps s' ! c = clumps s2 ! c" if "c \<in> set cs" for c
  proof -
    have "c \<noteq> a" using that notin by auto
    then show ?thesis by (simp add: s' link_children_def)
  qed
  have "filter (survivor s') cs = filter (survivor s2) cs"
    by (rule filter_cong) (simp_all add: survivor_def same)
  then have these': "these = filter (survivor s') cs" using these by simp
  have grand: "\<forall>x \<in> set (child_list (clumps s' ! c)). length (clumps s1) \<le> x" if c: "c \<in> set cs" for c
  proof -
    obtain j where j: "c = length (clumps s) + j" "j < length kept"
      using c by (auto simp: cs_def intro: that [of "c - length (clumps s)"])
    have "clumps s1 ! c = new_children env (clumps s ! a) a (contours_of env (clumps s ! a) minv None) (length (infos s)) kept ! j"
      by (simp add: s1_def kept_def find_children_clumps [OF a] nth_append j)
    then have none1: "children (clumps s1 ! c) = None"
      using j(2) by (simp add: nth_new_children new_clump_object_def)
    have "\<forall>c\<in>set cs. fresh_children c s1 s2"
      using investigate_fresh [of "\<lambda>child. find_clumps depth env child (minv * d) maxv d", OF frame _ inv dist in1]
        find_clumps_fresh by blast
    then have "fresh_children c s1 s2" using c by blast
    then show ?thesis
      using none1 same [OF c] by (auto simp: fresh_children_def child_list_def)
  qed
  have each: "\<forall>c \<in> set cs. clumps s' ! c = clumps s2 ! c \<and> data (clumps s' ! c) = data (clumps s1 ! c) \<and>
                   (\<forall>x \<in> set (child_list (clumps s' ! c)). length (clumps s1) \<le> x)"
  proof
    fix c assume c: "c \<in> set cs"
    have "data (clumps s' ! c) = data (clumps s1 ! c)" using same [OF c] dat2 in1 c by simp
    then show "clumps s' ! c = clumps s2 ! c \<and> data (clumps s' ! c) = data (clumps s1 ! c) \<and>
                   (\<forall>x \<in> set (child_list (clumps s' ! c)). length (clumps s1) \<le> x)"
      using same [OF c] grand [OF c] by blast
  qed
  show ?thesis
  proof (intro exI conjI)
    show "investigate (\<lambda>child. find_clumps depth env child (minv * d) maxv d) env cs [] s1 = Inr (these, s2)"
      by (rule inv)
    show "s' = link_children a these s2" by (rule s')
    show "these = filter (survivor s') cs" by (rule these')
    show "a < length (clumps s2)" by (rule a2)
    show "\<forall>c \<in> set cs. clumps s' ! c = clumps s2 ! c \<and> data (clumps s' ! c) = data (clumps s1 ! c) \<and>
                   (\<forall>x \<in> set (child_list (clumps s' ! c)). length (clumps s1) \<le> x)"
      by (rule each)
  qed
qed

lemma sorted_map_filter:
  "sorted_wrt (<) (map f xs) \<Longrightarrow> sorted_wrt (<) (map f (filter P xs))"
  by (simp add: sorted_wrt_map sorted_wrt_filter)

lemma find_clumps_linked:
  fixes env :: "('r, 'i) env"
  assumes "a < length (clumps s)" and "minv < maxv"
    and "find_clumps (Suc depth) env a minv maxv d s = Inr s'"
    and "children (clumps (find_children env a minv None s) ! a) = Some cs"
    and "1 < length cs"
  defines "these \<equiv> filter (survivor s') cs"
  shows "children (clumps s' ! a) =
     (if 1 < length these then Some these
      else if length these = 1 then children (clumps s' ! (these ! 0))
      else Some [])"
    and "\<forall>c \<in> set cs. c \<notin> set these \<or> length these = 1 \<longrightarrow> c \<notin> set (child_list (clumps s' ! a))"
proof -
  define kept where "kept = kept_contours env (data (clumps s ! a)) (contours_of env (clumps s ! a) minv None)"
  define s1 where "s1 = find_children env a minv None s"
  have cs: "cs = [length (clumps s) ..< length (clumps s) + length kept]"
    unfolding kept_def using assms(1,4) by (rule children_found)
  have many: "1 < length kept" using assms(5) by (simp add: cs)
  have l1: "length (clumps s1) = length (clumps s) + length kept"
    by (simp add: s1_def kept_def find_children_clumps [OF assms(1)])
  from find_clumps_many [OF assms(1,2,3) many [unfolded kept_def]]
  obtain th s2 where s': "s' = link_children a th s2"
    and th: "th = these" and a2: "a < length (clumps s2)"
    and same: "\<forall>c \<in> set cs. clumps s' ! c = clumps s2 ! c"
    and grand: "\<forall>c \<in> set cs. \<forall>x \<in> set (child_list (clumps s' ! c)). length (clumps s1) \<le> x"
    unfolding these_def cs kept_def s1_def by blast
  have link: "children (clumps s' ! a) =
     (if 1 < length these then Some these
      else if length these = 1 then children (clumps s2 ! (these ! 0))
      else Some [])"
    using a2 by (simp add: s' th link_children_def)
  have only: "these ! 0 \<in> set cs \<and> clumps s' ! (these ! 0) = clumps s2 ! (these ! 0)" if "length these = 1"
  proof -
    have "these ! 0 \<in> set these" using that by (simp del: One_nat_def)
    then have "these ! 0 \<in> set cs" by (simp add: these_def)
    then show ?thesis using same by blast
  qed
  show rule: "children (clumps s' ! a) =
     (if 1 < length these then Some these
      else if length these = 1 then children (clumps s' ! (these ! 0))
      else Some [])"
    using link only by (cases "length these = 1") simp_all
  show "\<forall>c \<in> set cs. c \<notin> set these \<or> length these = 1 \<longrightarrow> c \<notin> set (child_list (clumps s' ! a))"
  proof (intro ballI impI)
    fix c assume c: "c \<in> set cs" and out: "c \<notin> set these \<or> length these = 1"
    have below: "c < length (clumps s1)" using c by (simp add: cs l1)
    show "c \<notin> set (child_list (clumps s' ! a))"
    proof (cases "length these = 1")
      case True
      then have "child_list (clumps s' ! a) = child_list (clumps s' ! (these ! 0))"
        using rule by (simp add: child_list_def)
      moreover have "\<forall>x \<in> set (child_list (clumps s' ! (these ! 0))). length (clumps s1) \<le> x"
        using grand only [OF True] by blast
      ultimately show ?thesis using below by auto
    next
      case False
      then show ?thesis using rule out by (auto simp: child_list_def)
    qed
  qed
qed

section \<open>The survivors\<close>

text \<open>
  C1, as amended. When \<^verbatim>\<open>find_children\<close> gave a clump more than one child, then after
  \<^verbatim>\<open>find_clumps\<close> its children are: the surviving children, all of them, when more than
  one survived; the \<^verbatim>\<open>children\<close> value of the only survivor (which may be unset, empty
  or a single clump) when exactly one survived, and that survivor is not among them; the
  empty list when none survived. A survivor is a child that has children of its own or
  whose cached validity is true.
\<close>

theorem find_clumps_collapse:
  fixes env :: "('r, 'i) env"
  assumes "a < length (clumps s)" and "minv < maxv"
    and "find_clumps (Suc depth) env a minv maxv d s = Inr s'"
    and "children (clumps (find_children env a minv None s) ! a) = Some cs"
    and "1 < length cs"
  defines "these \<equiv> filter (survivor s') cs"
  shows "children (clumps s' ! a) =
     (if 1 < length these then Some these
      else if length these = 1 then children (clumps s' ! (these ! 0))
      else Some []) \<and>
     (length these = 1 \<longrightarrow> these ! 0 \<notin> set (child_list (clumps s' ! a)))"
proof -
  have "length these = 1 \<Longrightarrow> these ! 0 \<in> set cs"
  proof -
    assume "length these = 1"
    then have "these ! 0 \<in> set these" by (simp del: One_nat_def)
    then show ?thesis by (simp add: these_def)
  qed
  then show ?thesis
    using find_clumps_linked [OF assms(1-5)] unfolding these_def by blast
qed

theorem find_clumps_collapse_witness:
  "map_sum id (\<lambda>s'. children (clumps s' ! 0))
     (find_clumps 10 line_env 0 1 10 2 (line_root [5, 5, 0, 7, 0, 3, 3] ''valid'')) = Inr (Some [1, 3]) \<and>
   map_sum id (\<lambda>s'. filter (survivor s') [1, 2, 3])
     (find_clumps 10 line_env 0 1 10 2 (line_root [5, 5, 0, 7, 0, 3, 3] ''valid'')) = Inr [1, 3]"
proof -
  define s where "s = line_root [5, 5, 0, 7, 0, 3, 3] ''valid''"
  define s' where "s' = projr (find_clumps 10 line_env 0 1 10 2 s)"
  have a: "0 < length (clumps s)"
    unfolding s_def by code_simp
  have lt: "(1 :: real) < 10" by simp
  have run: "find_clumps (Suc 9) line_env 0 1 10 2 s = Inr s'"
    unfolding s'_def s_def by code_simp
  have run10: "find_clumps 10 line_env 0 1 10 2 s = Inr s'"
    unfolding s'_def s_def by code_simp
  have ch: "children (clumps (find_children line_env 0 1 None s) ! 0) = Some [1, 2, 3]"
    unfolding s_def by code_simp
  have many: "1 < length [1, 2, 3 :: nat]" by simp
  have surv: "filter (survivor s') [1, 2, 3] = [1, 3]"
    unfolding s'_def s_def by code_simp
  from find_clumps_collapse [OF a lt run ch many, THEN conjunct1]
  have "children (clumps s' ! 0) = Some [1, 3]"
    unfolding surv by simp
  then show ?thesis
    unfolding s_def [symmetric] run10 using surv by simp
qed

text \<open>
  The claim C1 as stated concludes that no clump of the finished tree has exactly one
  child. When \<^verbatim>\<open>find_children\<close> finds exactly one child and the raised threshold
  \<^verbatim>\<open>min_val * d_clump\<close> reaches \<^verbatim>\<open>max_val\<close>, the recursive call returns at once and the
  clump keeps that one child: here the root over the region \<open>[0, 5, 0]\<close>, with thresholds
  1 and 2 and step factor 2.
\<close>

theorem find_clumps_single_child_counterexample:
  "map_sum id (\<lambda>s'. children (clumps s' ! 0))
     (find_clumps 2 line_env 0 1 2 2 (line_root [0, 5, 0] ''True'')) = Inr (Some [1])"
  by code_simp

text \<open>
  C2, as amended. When \<^verbatim>\<open>find_children\<close> gave a clump more than one child,
  \<^verbatim>\<open>find_clumps\<close> runs its loop over these children, calls itself on each of them, and
  the list of the survivors it builds holds exactly the children that, in the store
  \<^verbatim>\<open>find_clumps\<close> returns, have children of their own, or have none and a cached
  validity \<^verbatim>\<open>True\<close> (what \<^verbatim>\<open>_isValid\<close> returned for them, and returns again). The
  survivors stand in the order of the children, which is the ascending order of the
  contour ids their regions were cut for. A child that is no survivor is not a child of
  the clump afterwards. With more than one survivor the survivors are the clump's
  children afterwards; an only survivor is not retained: the clump's children are then
  that survivor's own children, and the survivor is not among them.
\<close>

theorem find_clumps_survivors:
  fixes env :: "('r, 'i) env" and minv :: real
  assumes "a < length (clumps s)" and "minv < maxv"
    and "find_clumps (Suc depth) env a minv maxv d s = Inr s'"
    and "children (clumps (find_children env a minv None s) ! a) = Some cs"
    and "1 < length cs"
  defines "cids \<equiv> contours_of env (clumps s ! a) minv None"
  defines "kept \<equiv> kept_contours env (data (clumps s ! a)) cids"
  defines "contour \<equiv> \<lambda>c. kept ! (c - length (clumps s))"
  shows "\<exists>these s2.
     investigate (\<lambda>child. find_clumps depth env child (minv * d) maxv d) env cs []
       (find_children env a minv None s) = Inr (these, s2) \<and>
     s' = link_children a these s2 \<and>
     (\<forall>c \<in> set cs. \<exists>sa sb. find_clumps depth env c (minv * d) maxv d sa = Inr sb) \<and>
     these = filter (\<lambda>c. has_children (clumps s' ! c) \<or>
                          function_value (clumps s' ! c) = Some True) cs \<and>
     (\<forall>c \<in> set these. \<not> has_children (clumps s' ! c) \<longrightarrow> isValid env c s' = (Some True, s')) \<and>
     (\<forall>c \<in> set cs. data (clumps s' ! c) = cut_region env (data (clumps s ! a)) (contour c) cids) \<and>
     sorted_wrt (<) (map contour cs) \<and>
     sorted_wrt (<) (map contour these) \<and>
     (\<forall>c \<in> set cs. c \<notin> set these \<longrightarrow> c \<notin> set (child_list (clumps s' ! a))) \<and>
     (1 < length these \<longrightarrow> children (clumps s' ! a) = Some these) \<and>
     (length these = 1 \<longrightarrow>
        children (clumps s' ! a) = children (clumps s' ! (these ! 0)) \<and>
        these ! 0 \<notin> set (child_list (clumps s' ! a)))"
proof -
  define n where "n = length (clumps s)"
  define s1 where "s1 = find_children env a minv None s"
  have cs: "cs = [n ..< n + length kept]"
    unfolding kept_def cids_def n_def using assms(1,4) by (rule children_found)
  have many: "1 < length kept" using assms(5) by (simp add: cs)
  from find_clumps_many [OF assms(1,2,3) many [unfolded kept_def cids_def]]
  obtain these s2 where
    inv: "investigate (\<lambda>child. find_clumps depth env child (minv * d) maxv d) env cs [] s1 = Inr (these, s2)"
    and s': "s' = link_children a these s2"
    and these: "these = filter (survivor s') cs"
    and each: "\<forall>c \<in> set cs. data (clumps s' ! c) = data (clumps s1 ! c)"
    unfolding cs kept_def cids_def n_def s1_def by blast
  have rec: "\<forall>c \<in> set cs. \<exists>sa sb. find_clumps depth env c (minv * d) maxv d sa = Inr sb"
    using investigate_recursed [OF inv] .
  have filt: "these = filter (\<lambda>c. has_children (clumps s' ! c) \<or>
                          function_value (clumps s' ! c) = Some True) cs"
    unfolding these by (rule filter_cong) (simp_all add: survivor_def)
  have cached: "\<forall>c \<in> set these. \<not> has_children (clumps s' ! c) \<longrightarrow> isValid env c s' = (Some True, s')"
    by (auto simp: these survivor_def isValid_def)
  have map_contour: "map contour cs = kept"
    unfolding cs contour_def n_def [symmetric] by (rule nth_equalityI) simp_all
  have sorted_cs: "sorted_wrt (<) (map contour cs)"
    unfolding map_contour kept_def by (rule sorted_kept_contours)
  have sorted_these: "sorted_wrt (<) (map contour these)"
    unfolding these using sorted_cs by (rule sorted_map_filter)
  have dat: "data (clumps s' ! c) = cut_region env (data (clumps s ! a)) (contour c) cids" if "c \<in> set cs" for c
  proof -
    from that obtain j where j: "c = n + j" "j < length kept"
      by (auto simp: cs intro: that [of "c - n"])
    have "clumps s1 ! c = new_children env (clumps s ! a) a cids (length (infos s)) kept ! j"
      by (simp add: s1_def kept_def cids_def find_children_clumps [OF assms(1)] nth_append j n_def)
    then have "data (clumps s1 ! c) = cut_region env (data (clumps s ! a)) (kept ! j) cids"
      using j(2) by (simp add: nth_new_children new_clump_object_def)
    then show ?thesis using each that by (simp add: contour_def j n_def)
  qed
  have only: "length these = 1 \<Longrightarrow> these ! 0 \<in> set cs"
  proof -
    assume "length these = 1"
    then have "these ! 0 \<in> set these" by (simp del: One_nat_def)
    then show ?thesis by (simp add: these)
  qed
  show ?thesis
  proof (intro exI conjI)
    show "investigate (\<lambda>child. find_clumps depth env child (minv * d) maxv d) env cs []
            (find_children env a minv None s) = Inr (these, s2)"
      using inv unfolding s1_def .
    show "s' = link_children a these s2" by (rule s')
    show "\<forall>c \<in> set cs. \<exists>sa sb. find_clumps depth env c (minv * d) maxv d sa = Inr sb" by (rule rec)
    show "these = filter (\<lambda>c. has_children (clumps s' ! c) \<or>
                          function_value (clumps s' ! c) = Some True) cs"
      by (rule filt)
    show "\<forall>c \<in> set these. \<not> has_children (clumps s' ! c) \<longrightarrow> isValid env c s' = (Some True, s')"
      by (rule cached)
    show "\<forall>c \<in> set cs. data (clumps s' ! c) = cut_region env (data (clumps s ! a)) (contour c) cids"
      using dat by blast
    show "sorted_wrt (<) (map contour cs)" by (rule sorted_cs)
    show "sorted_wrt (<) (map contour these)" by (rule sorted_these)
    show "\<forall>c \<in> set cs. c \<notin> set these \<longrightarrow> c \<notin> set (child_list (clumps s' ! a))"
      using find_clumps_linked(2) [OF assms(1-5)] unfolding these by blast
    show "1 < length these \<longrightarrow> children (clumps s' ! a) = Some these"
      using find_clumps_linked(1) [OF assms(1-5)] unfolding these by simp
    show "length these = 1 \<longrightarrow>
        children (clumps s' ! a) = children (clumps s' ! (these ! 0)) \<and>
        these ! 0 \<notin> set (child_list (clumps s' ! a))"
      using find_clumps_linked [OF assms(1-5)] only unfolding these by simp
  qed
qed

text \<open>
  An instance with the three kinds of children: over the region
  \<open>[6, 6, 2, 6, 6, 0, 3, 0, 3, 3]\<close>, with thresholds 1 and 10 and step factor 4, the root's
  first child splits into two and survives for having children, the second has one cell
  and no children and is left out, the third has no children either and is valid.
\<close>

theorem find_clumps_survivors_witness:
  "map_sum id (\<lambda>s'. (children (clumps s' ! 0),
                     map (\<lambda>c. has_children (clumps s' ! c)) [1, 2, 3],
                     map (\<lambda>c. function_value (clumps s' ! c)) [1, 2, 3],
                     map (\<lambda>c. data (clumps s' ! c)) [1, 2, 3]))
     (find_clumps 10 line_env 0 1 10 4 (line_root [6, 6, 2, 6, 6, 0, 3, 0, 3, 3] ''valid'')) =
   Inr (Some [1, 3], [True, False, False], [None, Some False, Some True],
        [[6, 6, 2, 6, 6], [3], [3, 3]])"
proof -
  define s where "s = line_root [6, 6, 2, 6, 6, 0, 3, 0, 3, 3] ''valid''"
  define s' where "s' = projr (find_clumps 10 line_env 0 1 10 4 s)"
  have a: "0 < length (clumps s)"
    unfolding s_def by code_simp
  have lt: "(1 :: real) < 10" by simp
  have run: "find_clumps (Suc 9) line_env 0 1 10 4 s = Inr s'"
    unfolding s'_def s_def by code_simp
  have run10: "find_clumps 10 line_env 0 1 10 4 s = Inr s'"
    unfolding s'_def s_def by code_simp
  have ch: "children (clumps (find_children line_env 0 1 None s) ! 0) = Some [1, 2, 3]"
    unfolding s_def by code_simp
  have many: "1 < length [1, 2, 3 :: nat]" by simp
  have hc: "map (\<lambda>c. has_children (clumps s' ! c)) [1, 2, 3] = [True, False, False]"
    unfolding s'_def s_def by code_simp
  have fv: "map (\<lambda>c. function_value (clumps s' ! c)) [1, 2, 3] = [None, Some False, Some True]"
    unfolding s'_def s_def by code_simp
  have dat: "map (\<lambda>c. data (clumps s' ! c)) [1, 2, 3] = [[6, 6, 2, 6, 6], [3], [3, 3]]"
    unfolding s'_def s_def by code_simp
  have surv: "filter (\<lambda>c. has_children (clumps s' ! c) \<or> function_value (clumps s' ! c) = Some True) [1, 2, 3] = [1, 3]"
    unfolding s'_def s_def by code_simp
  from find_clumps_survivors [OF a lt run ch many]
  obtain th where
    "th = filter (\<lambda>c. has_children (clumps s' ! c) \<or> function_value (clumps s' ! c) = Some True) [1, 2, 3]"
    and "1 < length th \<longrightarrow> children (clumps s' ! 0) = Some th"
    by blast
  then have "children (clumps s' ! 0) = Some [1, 3]"
    unfolding surv by simp
  then show ?thesis
    unfolding s_def [symmetric] run10 using hc fv dat by simp
qed

text \<open>
  The claim C2 as stated has every child that passes the test retained. Over the region
  \<open>[5, 5, 0, 7]\<close>, with thresholds 1 and 10 and step factor 2, \<^verbatim>\<open>find_children\<close> gives the
  root two children; the first ends without children and valid, the second without
  children and not valid. The first is the only survivor, and line 192 gives the root
  the survivor's empty children list: the child that passed the test is not retained.
\<close>

theorem find_clumps_only_survivor_counterexample:
  "children (clumps (find_children line_env 0 1 None (line_root [5, 5, 0, 7] ''valid'')) ! 0) = Some [1, 2] \<and>
   map_sum id (\<lambda>s'. (children (clumps s' ! 0),
                     map (\<lambda>c. has_children (clumps s' ! c)) [1, 2],
                     map (\<lambda>c. fst (isValid line_env c s')) [1, 2]))
     (find_clumps 10 line_env 0 1 10 2 (line_root [5, 5, 0, 7] ''valid'')) =
   Inr (Some [], [False, False], [Some True, Some False])"
  by code_simp

section \<open>Pickling\<close>

text \<open>
  C4 does not hold of the code: \<^verbatim>\<open>_reconstruct_clump\<close> never gets as far as the loop
  that sets the parents (line 162), nor to the lines that strip and return the dataset.
  For the arguments \<^verbatim>\<open>__reduce__\<close> gives for the root of a tree with one child, with the
  region paired with a dataset, it raises \<^verbatim>\<open>NameError\<close> for the name \<^verbatim>\<open>iterable\<close>, as
  it does for all arguments.
\<close>

theorem reconstruct_clump_name_error:
  "reduce_clump (find_children line_env 0 1 None (line_root [0, 5, 0] ''True'')) 0 =
     (None, ''density'', 0, 5, None, Some [1], [0, 5, 0], 1, ''True'') \<and>
   reconstruct_clump ParentNone ''density'' 0 5 None (Some [1]) (7 :: nat, [0, 5, 0]) 1 ''True''
     (find_children line_env 0 1 None (line_root [0, 5, 0] ''True'')) = Inl (NameError ''iterable'')"
  by code_simp

section \<open>The cache of the validity\<close>

text \<open>
  A value other than \<^verbatim>\<open>None\<close> is cached: in every later store in which the cache is as
  the call left it, whatever else changed, a call returns the same value and changes
  nothing, for every environment and hence without evaluating the expression again.
\<close>

lemma isValid_cached:
  assumes "isValid env self s = (Some v, s1)"
    and "self < length (clumps s)"
    and "function_value (clumps s2 ! self) = function_value (clumps s1 ! self)"
  shows "function_value (clumps s1 ! self) = Some v \<and> isValid env2 self s2 = (Some v, s2)"
proof -
  have "function_value (clumps s1 ! self) = Some v"
    using assms(1,2) by (auto simp: isValid_def Let_def split: option.splits)
  then show ?thesis using assms(3) by (simp add: isValid_def)
qed

text \<open>
  The value \<^verbatim>\<open>None\<close> is not: the call leaves the store as it was, and the next call
  evaluates the expression again.
\<close>

lemma isValid_None_again:
  assumes "function_value (clumps s ! self) = None"
    and "eval_function env (function_expr (clumps s ! self)) s self = None"
  shows "isValid env self s = (None, s)"
proof -
  have "(clumps s)[self := (clumps s ! self)\<lparr>function_value := None\<rparr>] = clumps s"
  proof (cases "self < length (clumps s)")
    case True
    have "(clumps s ! self)\<lparr>function_value := None\<rparr> = clumps s ! self"
      using assms(1) by (metis clump.surjective clump.update_convs(9))
    then show ?thesis by simp
  next
    case False
    then show ?thesis by (simp add: list_update_beyond)
  qed
  then show ?thesis
    using assms by (simp add: isValid_def upd_clump_def)
qed

text \<open>
  C5 does not hold of the code. A clump of one cell with the validity expression
  \<^verbatim>\<open>(self.data.size > 1) or None\<close>: the first call of \<^verbatim>\<open>_isValid\<close> returns \<^verbatim>\<open>None\<close> and
  caches nothing; after the clump's data got a second cell, the second call evaluates
  the expression again and returns \<^verbatim>\<open>True\<close>.
\<close>

theorem isValid_None_reevaluated:
  "isValid line_env 0 (line_root [5] ''(self.data.size > 1) or None'') =
     (None, line_root [5] ''(self.data.size > 1) or None'') \<and>
   fst (isValid line_env 0
          (upd_clump 0 (\<lambda>c. c\<lparr>data := [5, 5]\<rparr>)
             (snd (isValid line_env 0 (line_root [5] ''(self.data.size > 1) or None''))))) = Some True"
  by code_simp

section \<open>The base case of \<^verbatim>\<open>find_clumps\<close>\<close>

text \<open>
  C8, as amended. When \<^verbatim>\<open>min_val >= max_val\<close>, a call of \<^verbatim>\<open>find_clumps\<close> returns at once,
  without an error, and leaves the whole store as it was, whatever the step factor is.
  The step factor itself is never tested.
\<close>

theorem find_clumps_base_case:
  "maxv \<le> minv \<Longrightarrow> find_clumps (Suc depth) env clump minv maxv d_clump s = Inr s"
  by simp

theorem find_clumps_base_case_witness:
  "(10 :: real) \<le> 10 \<and>
   find_clumps (Suc 0) line_env 0 10 10 (1 / 2) (line_root [0, 5, 0] ''True'') =
     Inr (line_root [0, 5, 0] ''True'')"
  using find_clumps_base_case [of 10 10 0 line_env 0 "1 / 2" "line_root [0, 5, 0] ''True''"]
  by simp

text \<open>
  With a step factor 1 the threshold never rises: a root that finds one child finds it
  again in every recursive call, and no recursion depth is enough for the call to return.
\<close>

lemma step_one_never_returns:
  "0 < length (clumps s) \<Longrightarrow> data (clumps s ! 0) = [0, 2] \<Longrightarrow> max_val (clumps s ! 0) = 2 \<Longrightarrow>
   find_clumps n line_env 0 1 10 1 s = Inl RecursionLimit"
proof (induction n arbitrary: s)
  case 0
  show ?case by simp
next
  case (Suc n)
  define s1 where "s1 = find_children line_env 0 1 None s"
  have cids: "contours_of line_env (clumps s ! 0) 1 None = [(0, [(0, [- 1, 1])])]"
    using Suc.prems(2,3) by (simp add: contours_of_def line_env_def)
  have kept: "kept_contours line_env (data (clumps s ! 0)) (contours_of line_env (clumps s ! 0) 1 None) = [1]"
    unfolding cids Suc.prems(2) by code_simp
  have ch1: "children (clumps s1 ! 0) = Some [length (clumps s)]"
    using find_children_children [OF Suc.prems(1), of line_env 1 None] by (simp add: s1_def kept)
  have rec1: "clumps s1 ! 0 = (clumps s ! 0)\<lparr>children := Some [length (clumps s)]\<rparr>"
    using Suc.prems(1) by (simp add: s1_def find_children_clumps [OF Suc.prems(1)] kept nth_append)
  have "find_clumps n line_env 0 1 10 1 s1 = Inl RecursionLimit"
    by (rule Suc.IH) (use Suc.prems rec1 in \<open>simp_all add: s1_def find_children_clumps\<close>)
  then show ?case
    by (simp add: s1_def [symmetric] ch1)
qed

text \<open>
  The claim C8 as stated also promises an immediate return for a step factor of at most
  1. With a step factor 1 and \<^verbatim>\<open>min_val < max_val\<close> the call runs \<^verbatim>\<open>find_children\<close>: a
  root whose children were unset ends with an empty children list, and a root that finds
  one child recurses until the recursion limit is reached.
\<close>

theorem find_clumps_step_factor_counterexample:
  "(1 :: real) \<le> 1 \<and>
   children (clumps (line_root [0, 0] ''valid'') ! 0) = None \<and>
   map_sum id (\<lambda>s'. children (clumps s' ! 0))
     (find_clumps 1 line_env 0 1 10 1 (line_root [0, 0] ''valid'')) = Inr (Some []) \<and>
   (\<forall>n. find_clumps n line_env 0 1 10 1 (line_root [0, 2] ''valid'') = Inl RecursionLimit)"
proof -
  have a: "0 < length (clumps (line_root [0, 2] ''valid''))"
    and d: "data (clumps (line_root [0, 2] ''valid'') ! 0) = [0, 2]"
    and m: "max_val (clumps (line_root [0, 2] ''valid'') ! 0) = 2"
    by code_simp+
  have "children (clumps (line_root [0, 0] ''valid'') ! 0) = None \<and>
   map_sum id (\<lambda>s'. children (clumps s' ! 0))
     (find_clumps 1 line_env 0 1 10 1 (line_root [0, 0] ''valid'')) = Inr (Some [])"
    by code_simp
  then show ?thesis
    using step_one_never_returns [OF a d m] by simp
qed

section \<open>A child's info list is a copy\<close>

text \<open>
  C10. A clump constructed with a \<^verbatim>\<open>clump_info\<close> list gets a list object of its own, with
  the contents the given list has at that moment. Whatever is later stored in the given
  list, and in particular an item appended to it directly, the new clump's list keeps
  those contents.
\<close>

theorem Clump_init_deepcopy:
  assumes "Clump_init env dat par fld cached fn ci s = (child, s1)"
    and "ci < length (infos s)"
  shows "clump_info (clumps s1 ! child) \<noteq> ci \<and>
     infos s1 ! clump_info (clumps s1 ! child) = infos s ! ci \<and>
     infos s1 ! ci = infos s ! ci \<and>
     (\<forall>xs. infos (s1\<lparr>infos := (infos s1)[ci := xs]\<rparr>) ! clump_info (clumps s1 ! child) = infos s ! ci) \<and>
     (\<forall>x. infos (list_append ci x s1) ! clump_info (clumps s1 ! child) = infos s ! ci)"
proof -
  have child: "child = length (clumps s)"
    and s1: "s1 = s\<lparr>clumps := clumps s @ [new_clump_object env dat par fld cached fn (length (infos s))],
                    infos := infos s @ [infos s ! ci]\<rparr>"
    using assms(1) by (simp_all add: Clump_init_def)
  have ci: "clump_info (clumps s1 ! child) = length (infos s)"
    by (simp add: child s1 new_clump_object_def)
  show ?thesis
    unfolding ci using assms(2) by (simp add: s1 nth_append list_append_def)
qed

theorem Clump_init_deepcopy_witness:
  "infos (list_append 1 (''jeans'', [])
            (snd (Clump_init line_env [5] (Some 0) ''density'' None None 1
                    (list_append 1 (''cell_mass'', []) (line_root [0, 5, 0] ''True''))))) ! 1 =
     [(''cell_mass'', []), (''jeans'', [])] \<and>
   infos (list_append 1 (''jeans'', [])
            (snd (Clump_init line_env [5] (Some 0) ''density'' None None 1
                    (list_append 1 (''cell_mass'', []) (line_root [0, 5, 0] ''True''))))) ! 2 =
     [(''cell_mass'', [])]"
proof -
  define s where "s = list_append 1 (''cell_mass'', []) (line_root [0, 5, 0] ''True'')"
  define s1 where "s1 = snd (Clump_init line_env [5] (Some 0) ''density'' None None 1 s)"
  have e: "Clump_init line_env [5] (Some 0) ''density'' None None 1 s = (1, s1)"
    unfolding s1_def s_def by code_simp
  have h: "1 < length (infos s)"
    unfolding s_def by code_simp
  have ci: "clump_info (clumps s1 ! 1) = 2"
    unfolding s1_def s_def by code_simp
  have old: "infos s ! 1 = [(''cell_mass'', [])]"
    unfolding s_def by code_simp
  have parent: "infos (list_append 1 (''jeans'', []) s1) ! 1 = [(''cell_mass'', []), (''jeans'', [])]"
    unfolding s1_def s_def by code_simp
  from Clump_init_deepcopy [OF e h]
  have "\<forall>x. infos (list_append 1 x s1) ! clump_info (clumps s1 ! 1) = infos s ! 1"
    by blast
  then have "infos (list_append 1 (''jeans'', []) s1) ! clump_info (clumps s1 ! 1) = infos s ! 1"
    by blast
  then have "infos (list_append 1 (''jeans'', []) s1) ! 2 = [(''cell_mass'', [])]"
    unfolding ci old .
  with parent show ?thesis by (simp add: s1_def s_def)
qed

section \<open>Reports on a clump whose children are unset\<close>

text \<open>
  C9, as amended. A report writer called on a clump whose \<^verbatim>\<open>children\<close> is unset raises
  nothing and treats the clump as a leaf: \<^verbatim>\<open>write_clumps\<close> writes its \<^verbatim>\<open>Clump:\<close> block and
  \<^verbatim>\<open>write_clump_index\<close> its \<^verbatim>\<open>Clump at level n:\<close> block, and neither goes further.
\<close>

theorem write_unset_children:
  assumes "children (clumps s ! clump) = None"
  shows "write_clumps (Suc depth) env s clump level =
           Inr (tabs level @ ''Clump:'' @ newline @ write_info env s clump level @ newline) \<and>
         write_clump_index (Suc depth) env s clump level =
           Inr (tabs level @ ''Clump at level '' @ digits level @ '':'' @ newline @
                write_info env s clump level @ newline)"
  using assms by (simp add: has_children_def no_children_def Let_def)

theorem write_unset_children_witness:
  "write_clumps (Suc 0) line_env (list_append 1 (''total_cells'', []) (line_root [0, 5, 0] ''True'')) 0 1 =
     Inr ([CHR 0x09] @ ''Clump:'' @ [CHR 0x0A, CHR 0x09] @ ''total_cells'' @ [CHR 0x0A, CHR 0x0A]) \<and>
   write_clump_index (Suc 0) line_env (list_append 1 (''total_cells'', []) (line_root [0, 5, 0] ''True'')) 0 1 =
     Inr ([CHR 0x09] @ ''Clump at level 1:'' @ [CHR 0x0A, CHR 0x09] @ ''total_cells'' @ [CHR 0x0A, CHR 0x0A])"
proof -
  define s where "s = list_append 1 (''total_cells'', []) (line_root [0, 5, 0] ''True'')"
  have h: "children (clumps s ! 0) = None"
    unfolding s_def by code_simp
  have l: "tabs 1 @ ''Clump:'' @ newline @ write_info line_env s 0 1 @ newline =
           [CHR 0x09] @ ''Clump:'' @ [CHR 0x0A, CHR 0x09] @ ''total_cells'' @ [CHR 0x0A, CHR 0x0A]"
    unfolding s_def by code_simp
  have i: "tabs 1 @ ''Clump at level '' @ digits 1 @ '':'' @ newline @ write_info line_env s 0 1 @ newline =
           [CHR 0x09] @ ''Clump at level 1:'' @ [CHR 0x0A, CHR 0x09] @ ''total_cells'' @ [CHR 0x0A, CHR 0x0A]"
    unfolding s_def by code_simp
  from write_unset_children [OF h, of 0 line_env 1, unfolded l i]
  show ?thesis unfolding s_def .
qed

text \<open>
  The claim C9 as stated expects an error for unset children. On a root that never was
  decomposed both writers return normally, with the text they write for the same clump
  with an empty children list.
\<close>

theorem write_unset_children_counterexample:
  "children (clumps (list_append 1 (''total_cells'', []) (line_root [0, 5, 0] ''True'')) ! 0) = None \<and>
   write_clumps 5 line_env (list_append 1 (''total_cells'', []) (line_root [0, 5, 0] ''True'')) 0 0 =
     Inr (''Clump:'' @ [CHR 0x0A] @ ''total_cells'' @ [CHR 0x0A, CHR 0x0A]) \<and>
   write_clumps 5 line_env
       (upd_clump 0 (\<lambda>c. c\<lparr>children := Some []\<rparr>) (list_append 1 (''total_cells'', []) (line_root [0, 5, 0] ''True''))) 0 0 =
     Inr (''Clump:'' @ [CHR 0x0A] @ ''total_cells'' @ [CHR 0x0A, CHR 0x0A]) \<and>
   write_clump_index 5 line_env (list_append 1 (''total_cells'', []) (line_root [0, 5, 0] ''True'')) 0 0 =
     Inr (''Clump at level 0:'' @ [CHR 0x0A] @ ''total_cells'' @ [CHR 0x0A, CHR 0x0A]) \<and>
   write_clump_index 5 line_env
       (upd_clump 0 (\<lambda>c. c\<lparr>children := Some []\<rparr>) (list_append 1 (''total_cells'', []) (line_root [0, 5, 0] ''True''))) 0 0 =
     Inr (''Clump at level 0:'' @ [CHR 0x0A] @ ''total_cells'' @ [CHR 0x0A, CHR 0x0A])"
  by code_simp

section \<open>Info items added to a tree\<close>

text \<open>
  C6 does not hold of the code: \<^verbatim>\<open>add_info_item\<close> calls
  \<^verbatim>\<open>child.add_info_item(info_item)\<close>, without the arguments. With a registry in which
  the item resolved with the argument differs from the item resolved without, the root
  gets the item with the argument and its child the item without.
\<close>

theorem add_info_item_drops_arguments:
  "children (clumps (find_children line_env 0 1 None (line_root [0, 5, 0] ''True'')) ! 0) = Some [1] \<and>
   registry_find line_env ''cell_mass'' [''cgs''] = Inr (''cell_mass'', [''cgs'']) \<and>
   map_sum id (\<lambda>s'. (infos s' ! clump_info (clumps s' ! 0), infos s' ! clump_info (clumps s' ! 1)))
     (add_info_item 5 line_env 0 ''cell_mass'' [''cgs'']
        (find_children line_env 0 1 None (line_root [0, 5, 0] ''True''))) =
   Inr ([(''cell_mass'', [''cgs''])], [(''cell_mass'', [])])"
  by code_simp

end
